theory Spec2Isabelle
  imports Main "HOL-Library.AList" "HOL-Library.Char_ord" "HOL-Library.List_Lexorder"
begin

section \<open>The indexed thread-safe store of client-go/tools/cache\<close>

text \<open>
  This theory embeds \<^verbatim>\<open>client-go/tools/cache/thread_safe_store.go\<close>: the index engine
  \<^verbatim>\<open>storeIndex\<close> and the table \<^verbatim>\<open>threadSafeMap\<close> that wraps it.

  Every method of \<^verbatim>\<open>threadSafeMap\<close> runs under the table's lock from its first to its
  last statement, so a method is modelled as one atomic function from the state before it to
  the state after it; the lock itself is not part of the model.

  Conventions.
  \<^item> A stored object has Go type \<^verbatim>\<open>any\<close>. It is a value of \<open>'o option\<close>: \<open>None\<close> is the
    \<^verbatim>\<open>nil\<close> interface value, \<open>Some x\<close> any other value.
  \<^item> A Go map that the code ranges over (the registry \<^verbatim>\<open>Indexers\<close>, the table
    \<^verbatim>\<open>items\<close>, the argument of \<^verbatim>\<open>Replace\<close>) is an association list with distinct keys;
    the list order stands for the order in which \<^verbatim>\<open>range\<close> visits the entries.
  \<^item> A Go map that is only read and written by key (\<^verbatim>\<open>Indices\<close>, \<^verbatim>\<open>Index\<close>) is a
    HOL map.
  \<^item> The maps a caller hands in (to \<^verbatim>\<open>NewThreadSafeStore\<close>, \<^verbatim>\<open>Replace\<close> and
    \<^verbatim>\<open>AddIndexers\<close>) are allocated maps, as \<^verbatim>\<open>Indexers{}\<close> and \<^verbatim>\<open>Indices{}\<close> are,
    and the caller does not write to them afterwards.
  \<^item> \<^verbatim>\<open>sets.String\<close> is a set of strings; the \<^verbatim>\<open>nil\<close> set reads as the empty set.
  \<^item> A \<^verbatim>\<open>panic\<close> is the result \<open>Inl\<close>: the call does not return a state.
\<close>

subsection \<open>Data model\<close>

text \<open>
  The declarations of \<^verbatim>\<open>IndexFunc\<close>, \<^verbatim>\<open>Index\<close>, \<^verbatim>\<open>Indexers\<close> and \<^verbatim>\<open>Indices\<close> live in
  \<^verbatim>\<open>index.go\<close>. They are written here as the code of \<^verbatim>\<open>thread_safe_store.go\<close> uses
  them: an index function takes an object and returns index values or an error (\<open>Inl\<close> the
  error's text, \<open>Inr\<close> the values); a registered function is never the \<^verbatim>\<open>nil\<close> function.
\<close>

type_synonym 'o obj = "'o option"

type_synonym 'o IndexFunc = "'o obj \<Rightarrow> string + string list"

type_synonym Index = "string \<rightharpoonup> string set"

type_synonym 'o Indexers = "(string \<times> 'o IndexFunc) list"

type_synonym Indices = "string \<rightharpoonup> Index"

record 'o storeIndex =
  indexers :: "'o Indexers"
  indices :: Indices

record 'o threadSafeMap =
  items :: "(string \<times> 'o obj) list"
  index :: "'o storeIndex"

text \<open>
  The errors the code builds with \<^verbatim>\<open>fmt.Errorf\<close>, one constructor per format string,
  carrying the arguments of the format:
  \<^item> \<open>IndexNotFound name\<close>: \<^verbatim>\<open>"Index with name %s does not exist"\<close>;
  \<^item> \<open>IndexerConflict names\<close>: \<^verbatim>\<open>"indexer conflict: %v"\<close>;
  \<^item> \<open>IndexerRegistrationOnNonEmptyStore\<close>: \<^verbatim>\<open>"cannot add indexers to running index"\<close>;
  \<^item> \<open>IndexFuncError err\<close>: the error of an index function, returned as it is.
  The value a panic carries is
  \<^verbatim>\<open>"unable to calculate an index entry for key %q on index %q: %v"\<close> with its key, index
  name and error.
\<close>

datatype error =
    IndexNotFound string
  | IndexerConflict "string set"
  | IndexerRegistrationOnNonEmptyStore
  | IndexFuncError string

datatype panic = UnableToCalculateIndexEntry string string string

subsection \<open>The index engine\<close>

definition reset :: "'o storeIndex \<Rightarrow> 'o storeIndex" where
  "reset i = i\<lparr>indices := Map.empty\<rparr>"

text \<open>\<^verbatim>\<open>i.indices[name]\<close> and \<^verbatim>\<open>index[value]\<close> as Go reads them: a missing entry reads as
  the \<^verbatim>\<open>nil\<close> map, which has no entries, and as the \<^verbatim>\<open>nil\<close> set, which has no members.\<close>

definition indexOf :: "Indices \<Rightarrow> string \<Rightarrow> Index" where
  "indexOf ixs name = (case ixs name of None \<Rightarrow> Map.empty | Some ix \<Rightarrow> ix)"

definition bucketOf :: "Index \<Rightarrow> string \<Rightarrow> string set" where
  "bucketOf ix v = (case ix v of None \<Rightarrow> {} | Some s \<Rightarrow> s)"

definition getKeysByIndex :: "string \<Rightarrow> string \<Rightarrow> 'o storeIndex \<Rightarrow> error + string set" where
  "getKeysByIndex indexName indexedValue i =
     (case map_of (indexers i) indexName of
        None \<Rightarrow> Inl (IndexNotFound indexName)
      | Some indexFunc \<Rightarrow> Inr (bucketOf (indexOf (indices i) indexName) indexedValue))"

definition getKeysFromIndex :: "string \<Rightarrow> 'o obj \<Rightarrow> 'o storeIndex \<Rightarrow> error + string set" where
  "getKeysFromIndex indexName ob i =
     (case map_of (indexers i) indexName of
        None \<Rightarrow> Inl (IndexNotFound indexName)
      | Some indexFunc \<Rightarrow>
          (case indexFunc ob of
             Inl err \<Rightarrow> Inl (IndexFuncError err)
           | Inr indexedValues \<Rightarrow>
               (let ix = indexOf (indices i) indexName in
                if length indexedValues = 1 then Inr (bucketOf ix (indexedValues ! 0))
                else Inr (\<Union>indexValue \<in> set indexedValues. bucketOf ix indexValue))))"

definition addIndexers :: "'o Indexers \<Rightarrow> 'o storeIndex \<Rightarrow> error option \<times> 'o storeIndex" where
  "addIndexers newIndexers i =
     (let oldKeys = set (map fst (indexers i));
          newKeys = set (map fst newIndexers)
      in if list_ex (\<lambda>k. k \<in> oldKeys) (map fst newIndexers)
         then (Some (IndexerConflict (oldKeys \<inter> newKeys)), i)
         else (None, i\<lparr>indexers := fold (\<lambda>(k, v). AList.update k v) newIndexers (indexers i)\<rparr>))"

definition addKeyToIndex :: "string \<Rightarrow> string \<Rightarrow> Index \<Rightarrow> Index" where
  "addKeyToIndex key indexValue ix =
     (case ix indexValue of
        None \<Rightarrow> ix(indexValue \<mapsto> {key})
      | Some s \<Rightarrow> ix(indexValue \<mapsto> insert key s))"

definition deleteKeyFromIndex :: "string \<Rightarrow> string \<Rightarrow> Index \<Rightarrow> Index" where
  "deleteKeyFromIndex key indexValue ix =
     (case ix indexValue of
        None \<Rightarrow> ix
      | Some s \<Rightarrow>
          (if s - {key} = {} then ix(indexValue := None)
           else ix(indexValue \<mapsto> s - {key})))"

text \<open>
  One pass of the loop of \<^verbatim>\<open>updateIndices\<close>, for the registry entry \<open>(name, indexFunc)\<close>.
  The variables \<^verbatim>\<open>oldIndexValues\<close>, \<^verbatim>\<open>indexValues\<close> and \<^verbatim>\<open>err\<close> are declared before the
  loop, but each pass overwrites the two slices before reading them, and \<^verbatim>\<open>err\<close> is
  \<^verbatim>\<open>nil\<close> whenever a pass begins (a pass that leaves it non-nil panics), so a pass depends
  on nothing of the passes before it but the indices.
\<close>

definition updateIndex ::
  "'o obj \<Rightarrow> 'o obj \<Rightarrow> string \<Rightarrow> string \<Rightarrow> 'o IndexFunc \<Rightarrow> Indices \<Rightarrow> panic + Indices" where
  "updateIndex oldObj newObj key name indexFunc ixs =
     (case (if oldObj \<noteq> None then indexFunc oldObj else Inr []) of
        Inl err \<Rightarrow> Inl (UnableToCalculateIndexEntry key name err)
      | Inr oldIndexValues \<Rightarrow>
          (case (if newObj \<noteq> None then indexFunc newObj else Inr []) of
             Inl err \<Rightarrow> Inl (UnableToCalculateIndexEntry key name err)
           | Inr indexValues \<Rightarrow>
               (let ix = indexOf ixs name in
                if length indexValues = 1 \<and> length oldIndexValues = 1
                   \<and> indexValues ! 0 = oldIndexValues ! 0
                then Inr (ixs(name \<mapsto> ix))
                else Inr (ixs(name \<mapsto>
                       fold (addKeyToIndex key) indexValues
                         (fold (deleteKeyFromIndex key) oldIndexValues ix))))))"

fun updateIndices_loop ::
  "'o obj \<Rightarrow> 'o obj \<Rightarrow> string \<Rightarrow> 'o Indexers \<Rightarrow> Indices \<Rightarrow> panic + Indices" where
  "updateIndices_loop oldObj newObj key [] ixs = Inr ixs"
| "updateIndices_loop oldObj newObj key ((name, indexFunc) # rest) ixs =
     (case updateIndex oldObj newObj key name indexFunc ixs of
        Inl p \<Rightarrow> Inl p
      | Inr ixs' \<Rightarrow> updateIndices_loop oldObj newObj key rest ixs')"

definition updateIndices ::
  "'o obj \<Rightarrow> 'o obj \<Rightarrow> string \<Rightarrow> 'o storeIndex \<Rightarrow> panic + 'o storeIndex" where
  "updateIndices oldObj newObj key i =
     (case updateIndices_loop oldObj newObj key (indexers i) (indices i) of
        Inl p \<Rightarrow> Inl p
      | Inr ixs \<Rightarrow> Inr (i\<lparr>indices := ixs\<rparr>))"

subsection \<open>The table\<close>

text \<open>\<^verbatim>\<open>c.items[key]\<close> read with one result: \<^verbatim>\<open>nil\<close> when the key is missing.\<close>

definition itemAt :: "(string \<times> 'o obj) list \<Rightarrow> string \<Rightarrow> 'o obj" where
  "itemAt its key = (case map_of its key of None \<Rightarrow> None | Some ob \<Rightarrow> ob)"

definition NewThreadSafeStore :: "'o Indexers \<Rightarrow> Indices \<Rightarrow> 'o threadSafeMap" where
  "NewThreadSafeStore ixrs ixs = \<lparr>items = [], index = \<lparr>indexers = ixrs, indices = ixs\<rparr>\<rparr>"

definition Update :: "string \<Rightarrow> 'o obj \<Rightarrow> 'o threadSafeMap \<Rightarrow> panic + 'o threadSafeMap" where
  "Update key ob c =
     (let oldObject = itemAt (items c) key;
          items' = AList.update key ob (items c)
      in case updateIndices oldObject ob key (index c) of
           Inl p \<Rightarrow> Inl p
         | Inr i' \<Rightarrow> Inr \<lparr>items = items', index = i'\<rparr>)"

definition Add :: "string \<Rightarrow> 'o obj \<Rightarrow> 'o threadSafeMap \<Rightarrow> panic + 'o threadSafeMap" where
  "Add key ob c = Update key ob c"

definition Delete :: "string \<Rightarrow> 'o threadSafeMap \<Rightarrow> panic + 'o threadSafeMap" where
  "Delete key c =
     (case map_of (items c) key of
        None \<Rightarrow> Inr c
      | Some ob \<Rightarrow>
          (case updateIndices ob None key (index c) of
             Inl p \<Rightarrow> Inl p
           | Inr i' \<Rightarrow> Inr \<lparr>items = AList.delete key (items c), index = i'\<rparr>))"

definition Get :: "string \<Rightarrow> 'o threadSafeMap \<Rightarrow> 'o obj \<times> bool" where
  "Get key c = (itemAt (items c) key, map_of (items c) key \<noteq> None)"

definition List_items :: "'o threadSafeMap \<Rightarrow> 'o obj list" where
  "List_items c = map snd (items c)"

definition ListKeys :: "'o threadSafeMap \<Rightarrow> string list" where
  "ListKeys c = map fst (items c)"

fun Replace_loop ::
  "(string \<times> 'o obj) list \<Rightarrow> 'o storeIndex \<Rightarrow> panic + 'o storeIndex" where
  "Replace_loop [] i = Inr i"
| "Replace_loop ((key, item) # rest) i =
     (case updateIndices None item key i of
        Inl p \<Rightarrow> Inl p
      | Inr i' \<Rightarrow> Replace_loop rest i')"

definition Replace ::
  "(string \<times> 'o obj) list \<Rightarrow> string \<Rightarrow> 'o threadSafeMap \<Rightarrow> panic + 'o threadSafeMap" where
  "Replace its resourceVersion c =
     (case Replace_loop its (reset (index c)) of
        Inl p \<Rightarrow> Inl p
      | Inr i' \<Rightarrow> Inr \<lparr>items = its, index = i'\<rparr>)"

text \<open>\<^verbatim>\<open>set.List()\<close> returns the members sorted; \<^verbatim>\<open>ByIndex\<close> ranges over the set in an
  order Go leaves open, taken here to be the sorted one.\<close>

definition ByIndex :: "string \<Rightarrow> string \<Rightarrow> 'o threadSafeMap \<Rightarrow> error + 'o obj list" where
  "ByIndex indexName indexedValue c =
     (case getKeysByIndex indexName indexedValue (index c) of
        Inl err \<Rightarrow> Inl err
      | Inr s \<Rightarrow> Inr (map (itemAt (items c)) (sorted_list_of_set s)))"

definition IndexKeys :: "string \<Rightarrow> string \<Rightarrow> 'o threadSafeMap \<Rightarrow> error + string list" where
  "IndexKeys indexName indexedValue c =
     (case getKeysByIndex indexName indexedValue (index c) of
        Inl err \<Rightarrow> Inl err
      | Inr s \<Rightarrow> Inr (sorted_list_of_set s))"

definition GetIndexers :: "'o threadSafeMap \<Rightarrow> 'o Indexers" where
  "GetIndexers c = indexers (index c)"

definition AddIndexers ::
  "'o Indexers \<Rightarrow> 'o threadSafeMap \<Rightarrow> error option \<times> 'o threadSafeMap" where
  "AddIndexers newIndexers c =
     (if length (items c) > 0 then (Some IndexerRegistrationOnNonEmptyStore, c)
      else (case addIndexers newIndexers (index c) of
              (err, i') \<Rightarrow> (err, c\<lparr>index := i'\<rparr>)))"

subsection \<open>Sequences of calls\<close>

text \<open>
  A client's calls, and the state they lead to. A panic ends the run. \<^verbatim>\<open>AddIndexers\<close>
  returns its error to the caller, who goes on with the state the call left.
\<close>

datatype 'o call =
    CallAdd string "'o obj"
  | CallUpdate string "'o obj"
  | CallDelete string
  | CallReplace "(string \<times> 'o obj) list" string
  | CallAddIndexers "'o Indexers"

fun perform :: "'o call \<Rightarrow> 'o threadSafeMap \<Rightarrow> panic + 'o threadSafeMap" where
  "perform (CallAdd key ob) c = Add key ob c"
| "perform (CallUpdate key ob) c = Update key ob c"
| "perform (CallDelete key) c = Delete key c"
| "perform (CallReplace its rv) c = Replace its rv c"
| "perform (CallAddIndexers newIndexers) c = Inr (snd (AddIndexers newIndexers c))"

fun run :: "'o call list \<Rightarrow> 'o threadSafeMap \<Rightarrow> panic + 'o threadSafeMap" where
  "run [] c = Inr c"
| "run (x # xs) c = (case perform x c of Inl p \<Rightarrow> Inl p | Inr c' \<Rightarrow> run xs c')"

text \<open>The arguments that are Go maps have distinct keys.\<close>

fun wf_call :: "'o call \<Rightarrow> bool" where
  "wf_call (CallReplace its rv) = distinct (map fst its)"
| "wf_call (CallAddIndexers newIndexers) = distinct (map fst newIndexers)"
| "wf_call _ = True"

text \<open>The calls of a run that only adds, updates and deletes.\<close>

fun isAddUpdateDelete :: "'o call \<Rightarrow> bool" where
  "isAddUpdateDelete (CallAdd key ob) = True"
| "isAddUpdateDelete (CallUpdate key ob) = True"
| "isAddUpdateDelete (CallDelete key) = True"
| "isAddUpdateDelete _ = False"

text \<open>The key set bucketed under a value of a named index of the store.\<close>

definition bucket :: "'o threadSafeMap \<Rightarrow> string \<Rightarrow> string \<Rightarrow> string set" where
  "bucket c name v = bucketOf (indexOf (indices (index c)) name) v"

subsection \<open>Notions used to state the properties\<close>

text \<open>
  What a pass of \<^verbatim>\<open>updateIndices\<close> computes for an object before it looks at the
  index: the object's index values, the empty sequence for \<^verbatim>\<open>nil\<close> (the function is
  not called then), or the function's error.
\<close>

definition valuesFor :: "'o IndexFunc \<Rightarrow> 'o obj \<Rightarrow> string + string list" where
  "valuesFor indexFunc ob = (if ob \<noteq> None then indexFunc ob else Inr [])"

text \<open>
  The test of the fast path, and the index a pass leaves: the one it found when the fast
  path applies, and otherwise that index with the key deleted under every old value and
  then added under every new value.
\<close>

definition fastPath :: "string list \<Rightarrow> string list \<Rightarrow> bool" where
  "fastPath oldIndexValues indexValues =
     (length indexValues = 1 \<and> length oldIndexValues = 1 \<and> indexValues ! 0 = oldIndexValues ! 0)"

definition reconciled :: "string \<Rightarrow> string list \<Rightarrow> string list \<Rightarrow> Index \<Rightarrow> Index" where
  "reconciled key oldIndexValues indexValues ix =
     (if fastPath oldIndexValues indexValues then ix
      else fold (addKeyToIndex key) indexValues (fold (deleteKeyFromIndex key) oldIndexValues ix))"

text \<open>
  No bucket of an index, and of an Index Set, is empty.
\<close>

definition noEmptyBucket :: "Index \<Rightarrow> bool" where
  "noEmptyBucket ix = (\<forall>v s. ix v = Some s \<longrightarrow> s \<noteq> {})"

definition noEmptyBuckets :: "Indices \<Rightarrow> bool" where
  "noEmptyBuckets ixs = (\<forall>name ix. ixs name = Some ix \<longrightarrow> noEmptyBucket ix)"

text \<open>
  The indices agree with the table. \<open>cur k\<close> is the object the table reads under
  \<open>k\<close> (\<open>None\<close> for a missing key and for a key stored with \<^verbatim>\<open>nil\<close>). For every
  registered function and every key, the function yields values for the key's object, and
  the key is in the bucket of a value exactly when the value is among them; and only
  registered names have an index.
\<close>

definition consistent :: "'o Indexers \<Rightarrow> (string \<Rightarrow> 'o obj) \<Rightarrow> Indices \<Rightarrow> bool" where
  "consistent regs cur ixs \<longleftrightarrow>
     (\<forall>(name, f) \<in> set regs. \<forall>k. \<exists>vs. valuesFor f (cur k) = Inr vs \<and>
         (\<forall>v. k \<in> bucketOf (indexOf ixs name) v \<longleftrightarrow> v \<in> set vs))
     \<and> dom ixs \<subseteq> fst ` set regs"

definition invariant :: "'o threadSafeMap \<Rightarrow> bool" where
  "invariant c \<longleftrightarrow>
     distinct (map fst (indexers (index c))) \<and>
     consistent (indexers (index c)) (itemAt (items c)) (indices (index c))"

text \<open>
  When the table holds an entry, every registered name has an index.
\<close>

definition allIndexed :: "'o threadSafeMap \<Rightarrow> bool" where
  "allIndexed c \<longleftrightarrow> (items c \<noteq> [] \<longrightarrow> fst ` set (indexers (index c)) \<subseteq> dom (indices (index c)))"

text \<open>
  Some registered function returns an error on the old or on the new object of a
  reconcile; a function is applied to an object only when the object is not \<^verbatim>\<open>nil\<close>.
\<close>

definition indexFuncFails :: "'o Indexers \<Rightarrow> 'o obj \<Rightarrow> 'o obj \<Rightarrow> bool" where
  "indexFuncFails regs oldObj newObj \<longleftrightarrow>
     (\<exists>(name, f) \<in> set regs. (oldObj \<noteq> None \<and> isl (f oldObj)) \<or> (newObj \<noteq> None \<and> isl (f newObj)))"

text \<open>
  The calls that add the entries of a map one by one, in the order \<^verbatim>\<open>range\<close> visits
  them.
\<close>

definition addAll :: "(string \<times> 'o obj) list \<Rightarrow> 'o call list" where
  "addAll its = map (\<lambda>(key, item). CallAdd key item) its"

subsection \<open>Example index functions and stores\<close>

text \<open>
  \<open>byFirstChar\<close> indexes a string by its first character and fails on \<^verbatim>\<open>nil\<close> and
  on the empty string; \<open>byConst\<close> is the indexer of the test
  \<^verbatim>\<open>TestThreadSafeStoreAddKeepNonEmptySetPostDeleteFromIndex\<close>, which returns one fixed
  value for every object; \<open>byLength\<close> indexes a string by its length, written in unary.
\<close>

definition byFirstChar :: "string IndexFunc" where
  "byFirstChar ob = (case ob of Some (ch # rest) \<Rightarrow> Inr [[ch]] | _ \<Rightarrow> Inl ''no first character'')"

definition byConst :: "string IndexFunc" where
  "byConst ob = Inr [''testIndex'']"

definition byLength :: "string IndexFunc" where
  "byLength ob = (case ob of None \<Rightarrow> Inl ''no object'' | Some s \<Rightarrow> Inr [replicate (length s) CHR ''x''])"

definition emptyEngine :: "string storeIndex" where
  "emptyEngine = \<lparr>indexers = [(''byFirstChar'', byFirstChar)], indices = Map.empty\<rparr>"

definition nilStore :: "string threadSafeMap" where
  "nilStore = \<lparr>items = [(''k1'', None)],
      index = \<lparr>indexers = [(''byConst'', byConst)], indices = [''byConst'' \<mapsto> Map.empty]\<rparr>\<rparr>"

definition fruitCalls :: "string call list" where
  "fruitCalls = [CallAdd ''k1'' (Some ''apple''), CallAdd ''k2'' (Some ''avocado''),
     CallUpdate ''k1'' (Some ''banana''), CallAdd ''k3'' None, CallDelete ''k2'']"

definition fruitStore :: "string threadSafeMap" where
  "fruitStore = \<lparr>items = [(''k1'', Some ''banana''), (''k3'', None)],
      index = \<lparr>indexers = [(''byFirstChar'', byFirstChar)],
                indices = [''byFirstChar'' \<mapsto> [''b'' \<mapsto> {''k1''}]]\<rparr>\<rparr>"

definition newFruit :: "(string \<times> string obj) list" where
  "newFruit = [(''k1'', Some ''apple''), (''k2'', Some ''avocado'')]"

definition replacedStore :: "string threadSafeMap" where
  "replacedStore = \<lparr>items = newFruit,
      index = \<lparr>indexers = [(''byFirstChar'', byFirstChar)],
                indices = [''byFirstChar'' \<mapsto> [''a'' \<mapsto> {''k2'', ''k1''}]]\<rparr>\<rparr>"

definition twoIndexers :: "string Indexers" where
  "twoIndexers = [(''byFirstChar'', byFirstChar), (''byConst'', byConst)]"

definition twoIndexStore :: "string threadSafeMap" where
  "twoIndexStore = \<lparr>items = [(''k1'', Some ''banana'')],
      index = \<lparr>indexers = twoIndexers,
                indices = [''byFirstChar'' \<mapsto> [''b'' \<mapsto> {''k1''}],
                           ''byConst'' \<mapsto> [''testIndex'' \<mapsto> {''k1''}]]\<rparr>\<rparr>"

definition afterFirstPass :: Indices where
  "afterFirstPass = [''byFirstChar'' \<mapsto> [''a'' \<mapsto> {''k1''}],
                     ''byConst'' \<mapsto> [''testIndex'' \<mapsto> {''k1''}]]"

section \<open>Lemmas\<close>

subsection \<open>Buckets under insertion and deletion of a key\<close>

lemma bucketOf_addKeyToIndex:
  "bucketOf (addKeyToIndex key v' ix) v = (if v = v' then insert key (bucketOf ix v) else bucketOf ix v)"
  by (simp add: bucketOf_def addKeyToIndex_def split: option.splits)

lemma bucketOf_deleteKeyFromIndex:
  "bucketOf (deleteKeyFromIndex key v' ix) v = (if v = v' then bucketOf ix v - {key} else bucketOf ix v)"
  by (auto simp add: bucketOf_def deleteKeyFromIndex_def split: option.splits)

lemma bucketOf_fold_add:
  "bucketOf (fold (addKeyToIndex key) vs ix) v = (if v \<in> set vs then insert key (bucketOf ix v) else bucketOf ix v)"
  by (induction vs arbitrary: ix) (auto simp: bucketOf_addKeyToIndex)

lemma bucketOf_fold_delete:
  "bucketOf (fold (deleteKeyFromIndex key) vs ix) v = (if v \<in> set vs then bucketOf ix v - {key} else bucketOf ix v)"
  by (induction vs arbitrary: ix) (auto simp: bucketOf_deleteKeyFromIndex)

lemma noEmptyBucket_add: "noEmptyBucket ix \<Longrightarrow> noEmptyBucket (addKeyToIndex key v ix)"
  by (auto simp: noEmptyBucket_def addKeyToIndex_def split: option.splits if_splits)

lemma noEmptyBucket_delete: "noEmptyBucket ix \<Longrightarrow> noEmptyBucket (deleteKeyFromIndex key v ix)"
  by (auto simp: noEmptyBucket_def deleteKeyFromIndex_def split: option.splits if_splits)

lemma noEmptyBucket_fold_add: "noEmptyBucket ix \<Longrightarrow> noEmptyBucket (fold (addKeyToIndex key) vs ix)"
  by (induction vs arbitrary: ix) (auto simp: noEmptyBucket_add)

lemma noEmptyBucket_fold_delete: "noEmptyBucket ix \<Longrightarrow> noEmptyBucket (fold (deleteKeyFromIndex key) vs ix)"
  by (induction vs arbitrary: ix) (auto simp: noEmptyBucket_delete)

subsection \<open>One pass and the whole loop of updateIndices\<close>

lemma updateIndex_Inr_iff:
  "updateIndex oldObj newObj key name f ixs = Inr ixs' \<longleftrightarrow>
     (\<exists>ovs nvs. valuesFor f oldObj = Inr ovs \<and> valuesFor f newObj = Inr nvs \<and>
        ixs' = ixs(name \<mapsto> reconciled key ovs nvs (indexOf ixs name)))"
  unfolding updateIndex_def valuesFor_def reconciled_def fastPath_def
  by (auto simp: Let_def split: sum.splits)

lemma updateIndex_Inl_iff:
  "updateIndex oldObj newObj key name f ixs = Inl p \<longleftrightarrow>
     (\<exists>err. p = UnableToCalculateIndexEntry key name err \<and>
        (valuesFor f oldObj = Inl err \<or> (\<exists>ovs. valuesFor f oldObj = Inr ovs \<and> valuesFor f newObj = Inl err)))"
  unfolding updateIndex_def valuesFor_def
  by (auto simp: Let_def split: sum.splits)

lemma isl_valuesFor: "isl (valuesFor f ob) \<longleftrightarrow> ob \<noteq> None \<and> isl (f ob)"
  by (simp add: valuesFor_def)

lemma mem_reconciled:
  assumes "\<And>v. key \<in> bucketOf ix v \<longleftrightarrow> v \<in> set ovs"
  shows "k \<in> bucketOf (reconciled key ovs nvs ix) v \<longleftrightarrow>
           (if k = key then v \<in> set nvs else k \<in> bucketOf ix v)"
proof (cases "fastPath ovs nvs")
  case True
  then obtain a where "ovs = [a]" "nvs = [a]"
    unfolding fastPath_def
    by (metis One_nat_def length_0_conv length_Suc_conv nth_Cons_0)
  with assms True show ?thesis by (simp add: reconciled_def)
next
  case False
  then show ?thesis using assms
    by (auto simp: reconciled_def bucketOf_fold_add bucketOf_fold_delete)
qed

lemma noEmptyBucket_reconciled: "noEmptyBucket ix \<Longrightarrow> noEmptyBucket (reconciled key ovs nvs ix)"
  by (simp add: reconciled_def noEmptyBucket_fold_add noEmptyBucket_fold_delete)

lemma loop_other:
  "updateIndices_loop oldObj newObj key regs ixs = Inr ixs' \<Longrightarrow> name \<notin> fst ` set regs \<Longrightarrow> ixs' name = ixs name"
proof (induction regs arbitrary: ixs)
  case Nil then show ?case by simp
next
  case (Cons r regs)
  obtain n f where r: "r = (n, f)" by (cases r)
  from Cons.prems obtain ixs1 where
    s1: "updateIndex oldObj newObj key n f ixs = Inr ixs1" and
    s2: "updateIndices_loop oldObj newObj key regs ixs1 = Inr ixs'"
    by (auto simp: r split: sum.splits)
  from s1 Cons.prems(2) have "ixs1 name = ixs name"
    by (auto simp: updateIndex_Inr_iff r)
  with Cons.IH[OF s2] Cons.prems(2) show ?case by simp
qed

lemma loop_entry:
  "updateIndices_loop oldObj newObj key regs ixs = Inr ixs' \<Longrightarrow> distinct (map fst regs) \<Longrightarrow>
   (name, f) \<in> set regs \<Longrightarrow>
   \<exists>ovs nvs. valuesFor f oldObj = Inr ovs \<and> valuesFor f newObj = Inr nvs \<and>
      ixs' name = Some (reconciled key ovs nvs (indexOf ixs name))"
proof (induction regs arbitrary: ixs)
  case Nil then show ?case by simp
next
  case (Cons r regs)
  obtain n g where r: "r = (n, g)" by (cases r)
  from Cons.prems(1) obtain ixs1 where
    s1: "updateIndex oldObj newObj key n g ixs = Inr ixs1" and
    s2: "updateIndices_loop oldObj newObj key regs ixs1 = Inr ixs'"
    by (auto simp: r split: sum.splits)
  from Cons.prems(2) have d: "distinct (map fst regs)" and nn: "n \<notin> fst ` set regs"
    by (auto simp: r)
  show ?case
  proof (cases "(name, f) \<in> set regs")
    case True
    then have "name \<noteq> n" using nn by force
    with s1 have "indexOf ixs1 name = indexOf ixs name"
      by (auto simp: updateIndex_Inr_iff indexOf_def)
    with Cons.IH[OF s2 d True] show ?thesis by simp
  next
    case False
    with Cons.prems(3) have e: "name = n" "f = g" by (auto simp: r)
    from loop_other[OF s2 nn] have "ixs' n = ixs1 n" .
    with s1 e show ?thesis by (auto simp: updateIndex_Inr_iff)
  qed
qed

lemma loop_Inl_iff:
  "(\<exists>p. updateIndices_loop oldObj newObj key regs ixs = Inl p) \<longleftrightarrow>
     (\<exists>(name, f) \<in> set regs. isl (valuesFor f oldObj) \<or> isl (valuesFor f newObj))"
proof (induction regs arbitrary: ixs)
  case Nil then show ?case by simp
next
  case (Cons r regs)
  obtain n g where r: "r = (n, g)" by (cases r)
  show ?case
  proof (cases "updateIndex oldObj newObj key n g ixs")
    case (Inl p)
    then have "isl (valuesFor g oldObj) \<or> isl (valuesFor g newObj)"
      by (auto simp: updateIndex_Inl_iff)
    with Inl show ?thesis by (auto simp: r)
  next
    case (Inr ixs1)
    then have "\<not> isl (valuesFor g oldObj)" "\<not> isl (valuesFor g newObj)"
      by (auto simp: updateIndex_Inr_iff)
    with Inr Cons.IH[of ixs1] show ?thesis by (simp add: r)
  qed
qed

lemma loop_Inl_cause:
  "updateIndices_loop oldObj newObj key regs ixs = Inl p \<Longrightarrow>
   \<exists>name f err. p = UnableToCalculateIndexEntry key name err \<and> (name, f) \<in> set regs \<and>
      ((oldObj \<noteq> None \<and> f oldObj = Inl err) \<or> (newObj \<noteq> None \<and> f newObj = Inl err))"
proof (induction regs arbitrary: ixs)
  case Nil then show ?case by simp
next
  case (Cons r regs)
  obtain n g where r: "r = (n, g)" by (cases r)
  show ?case
  proof (cases "updateIndex oldObj newObj key n g ixs")
    case (Inl q)
    with Cons.prems have "q = p" by (simp add: r)
    with Inl obtain err where "p = UnableToCalculateIndexEntry key n err"
      and "valuesFor g oldObj = Inl err \<or> valuesFor g newObj = Inl err"
      by (auto simp: updateIndex_Inl_iff)
    then have "p = UnableToCalculateIndexEntry key n err \<and> (n, g) \<in> set (r # regs) \<and>
      ((oldObj \<noteq> None \<and> g oldObj = Inl err) \<or> (newObj \<noteq> None \<and> g newObj = Inl err))"
      by (auto simp: valuesFor_def r split: if_splits)
    then show ?thesis by blast
  next
    case (Inr ixs1)
    with Cons.prems have "updateIndices_loop oldObj newObj key regs ixs1 = Inl p" by (simp add: r)
    from Cons.IH[OF this] show ?thesis by auto
  qed
qed

lemma updateIndices_Inr_iff:
  "updateIndices oldObj newObj key i = Inr i' \<longleftrightarrow>
     (\<exists>ixs'. updateIndices_loop oldObj newObj key (indexers i) (indices i) = Inr ixs' \<and> i' = i\<lparr>indices := ixs'\<rparr>)"
  by (auto simp: updateIndices_def split: sum.splits)

lemma updateIndices_Inl_iff:
  "(\<exists>p. updateIndices oldObj newObj key i = Inl p) \<longleftrightarrow> indexFuncFails (indexers i) oldObj newObj"
proof -
  have "(\<exists>p. updateIndices oldObj newObj key i = Inl p) \<longleftrightarrow>
        (\<exists>p. updateIndices_loop oldObj newObj key (indexers i) (indices i) = Inl p)"
    by (auto simp: updateIndices_def split: sum.splits)
  then show ?thesis
    by (simp add: loop_Inl_iff indexFuncFails_def isl_valuesFor)
qed

lemma Update_Inl_iff:
  "(\<exists>p. Update key newObj c = Inl p) \<longleftrightarrow>
     indexFuncFails (indexers (index c)) (itemAt (items c) key) newObj"
proof -
  have "(\<exists>p. Update key newObj c = Inl p) \<longleftrightarrow>
      (\<exists>p. updateIndices (itemAt (items c) key) newObj key (index c) = Inl p)"
    by (auto simp: Update_def Let_def split: sum.splits)
  then show ?thesis by (simp add: updateIndices_Inl_iff)
qed

text \<open>
  Go visits the entries of the registry in an order of its choice. The order decides
  nothing but which failing function a panic names: whether the loop panics, and the
  indices it leaves, are the same for every order.
\<close>

lemma updateIndices_loop_order:
  assumes d: "distinct (map fst regs)" and d': "distinct (map fst regs')" and s: "set regs = set regs'"
  shows "(\<exists>p. updateIndices_loop oldObj newObj key regs ixs = Inl p)
           \<longleftrightarrow> (\<exists>p. updateIndices_loop oldObj newObj key regs' ixs = Inl p)"
    and "updateIndices_loop oldObj newObj key regs ixs = Inr ixs1 \<Longrightarrow>
         updateIndices_loop oldObj newObj key regs' ixs = Inr ixs1"
proof -
  show e: "(\<exists>p. updateIndices_loop oldObj newObj key regs ixs = Inl p)
           \<longleftrightarrow> (\<exists>p. updateIndices_loop oldObj newObj key regs' ixs = Inl p)"
    by (simp add: loop_Inl_iff s)
  assume l: "updateIndices_loop oldObj newObj key regs ixs = Inr ixs1"
  with e obtain ixs2 where l': "updateIndices_loop oldObj newObj key regs' ixs = Inr ixs2"
    by (cases "updateIndices_loop oldObj newObj key regs' ixs") auto
  have "ixs2 name = ixs1 name" for name
  proof (cases "name \<in> fst ` set regs")
    case True
    then obtain f where r: "(name, f) \<in> set regs" by auto
    from loop_entry[OF l d r] obtain ovs nvs where
      a: "valuesFor f oldObj = Inr ovs" "valuesFor f newObj = Inr nvs"
         "ixs1 name = Some (reconciled key ovs nvs (indexOf ixs name))" by blast
    from r s have r': "(name, f) \<in> set regs'" by simp
    from loop_entry[OF l' d' r'] a show ?thesis by auto
  next
    case False
    with loop_other[OF l False] loop_other[OF l', of name] s show ?thesis by simp
  qed
  then have "ixs2 = ixs1" by (simp add: fun_eq_iff)
  with l' show "updateIndices_loop oldObj newObj key regs' ixs = Inr ixs1" by simp
qed

subsection \<open>The indices stay consistent with the table\<close>

lemma consistent_entry:
  "consistent regs cur ixs \<Longrightarrow> (name, f) \<in> set regs \<Longrightarrow>
   \<exists>vs. valuesFor f (cur k) = Inr vs \<and> (\<forall>v. k \<in> bucketOf (indexOf ixs name) v \<longleftrightarrow> v \<in> set vs)"
  unfolding consistent_def by blast

lemma consistent_empty: "consistent regs (\<lambda>k. None) Map.empty"
  by (auto simp: consistent_def valuesFor_def bucketOf_def indexOf_def)

lemma consistent_loop:
  assumes c: "consistent regs cur ixs" and d: "distinct (map fst regs)"
    and l: "updateIndices_loop (cur key) newObj key regs ixs = Inr ixs'"
  shows "consistent regs (cur(key := newObj)) ixs'"
  unfolding consistent_def
proof (intro conjI ballI)
  fix r assume r: "r \<in> set regs"
  obtain name f where nf: "r = (name, f)" by (cases r)
  from loop_entry[OF l d r[unfolded nf]] obtain ovs nvs where
    o: "valuesFor f (cur key) = Inr ovs" and n: "valuesFor f newObj = Inr nvs" and
    i: "ixs' name = Some (reconciled key ovs nvs (indexOf ixs name))" by blast
  from c r nf have pre: "\<And>k. \<exists>vs. valuesFor f (cur k) = Inr vs \<and>
         (\<forall>v. k \<in> bucketOf (indexOf ixs name) v \<longleftrightarrow> v \<in> set vs)"
    unfolding consistent_def by blast
  from pre[of key] o have pk: "\<And>v. key \<in> bucketOf (indexOf ixs name) v \<longleftrightarrow> v \<in> set ovs"
    by auto
  have io: "indexOf ixs' name = reconciled key ovs nvs (indexOf ixs name)"
    using i by (simp add: indexOf_def)
  have "\<exists>vs. valuesFor f ((cur(key := newObj)) k) = Inr vs \<and>
         (\<forall>v. k \<in> bucketOf (indexOf ixs' name) v \<longleftrightarrow> v \<in> set vs)" for k
  proof (cases "k = key")
    case True
    then show ?thesis using n by (simp add: io mem_reconciled[OF pk])
  next
    case False
    then show ?thesis using pre[of k] by (simp add: io mem_reconciled[OF pk])
  qed
  then show "case r of (name, f) \<Rightarrow> \<forall>k. \<exists>vs. valuesFor f ((cur(key := newObj)) k) = Inr vs \<and>
         (\<forall>v. k \<in> bucketOf (indexOf ixs' name) v \<longleftrightarrow> v \<in> set vs)"
    by (simp add: nf)
next
  show "dom ixs' \<subseteq> fst ` set regs"
  proof
    fix name assume "name \<in> dom ixs'"
    then have "ixs' name \<noteq> None" by auto
    show "name \<in> fst ` set regs"
    proof (rule ccontr)
      assume nin: "name \<notin> fst ` set regs"
      from loop_other[OF l nin] have "ixs' name = ixs name" .
      moreover from c nin have "ixs name = None" unfolding consistent_def by auto
      ultimately show False using \<open>ixs' name \<noteq> None\<close> by simp
    qed
  qed
qed

lemma itemAt_update: "itemAt (AList.update key ob its) = (itemAt its)(key := ob)"
  by (auto simp: itemAt_def fun_eq_iff update_conv')

lemma itemAt_delete: "itemAt (AList.delete key its) = (itemAt its)(key := None)"
  by (auto simp: itemAt_def fun_eq_iff delete_conv')

lemma invariant_Update:
  assumes "invariant c" "Update key ob c = Inr c'"
  shows "invariant c'"
proof -
  from assms(2) obtain ixs' where
    l: "updateIndices_loop (itemAt (items c) key) ob key (indexers (index c)) (indices (index c)) = Inr ixs'"
    and c': "c' = \<lparr>items = AList.update key ob (items c), index = (index c)\<lparr>indices := ixs'\<rparr>\<rparr>"
    by (auto simp: Update_def Let_def updateIndices_Inr_iff split: sum.splits)
  from assms(1) have d: "distinct (map fst (indexers (index c)))"
    and k: "consistent (indexers (index c)) (itemAt (items c)) (indices (index c))"
    by (auto simp: invariant_def)
  from consistent_loop[OF k d l] d show ?thesis
    by (simp add: invariant_def c' itemAt_update)
qed

lemma invariant_Delete:
  assumes "invariant c" "Delete key c = Inr c'"
  shows "invariant c'"
proof (cases "map_of (items c) key")
  case None
  with assms show ?thesis by (simp add: Delete_def)
next
  case (Some ob)
  then have ia: "itemAt (items c) key = ob" by (simp add: itemAt_def)
  from assms(2) Some obtain ixs' where
    l: "updateIndices_loop ob None key (indexers (index c)) (indices (index c)) = Inr ixs'"
    and c': "c' = \<lparr>items = AList.delete key (items c), index = (index c)\<lparr>indices := ixs'\<rparr>\<rparr>"
    by (auto simp: Delete_def updateIndices_Inr_iff split: sum.splits)
  from assms(1) have d: "distinct (map fst (indexers (index c)))"
    and k: "consistent (indexers (index c)) (itemAt (items c)) (indices (index c))"
    by (auto simp: invariant_def)
  from consistent_loop[OF k d l[folded ia]] d show ?thesis
    by (simp add: invariant_def c' itemAt_delete)
qed

lemma Replace_loop_indexers:
  "Replace_loop its i = Inr i' \<Longrightarrow> indexers i' = indexers i"
proof (induction its arbitrary: i)
  case Nil then show ?case by simp
next
  case (Cons a its)
  obtain key item where a: "a = (key, item)" by (cases a)
  from Cons.prems obtain i1 where s1: "updateIndices None item key i = Inr i1"
    and s2: "Replace_loop its i1 = Inr i'"
    by (auto simp: a split: sum.splits)
  from s1 have "indexers i1 = indexers i" by (auto simp: updateIndices_Inr_iff)
  with Cons.IH[OF s2] show ?case by simp
qed

lemma Replace_loop_Inl_iff:
  "(\<exists>p. Replace_loop its i = Inl p) \<longleftrightarrow> (\<exists>(key, item) \<in> set its. indexFuncFails (indexers i) None item)"
proof (induction its arbitrary: i)
  case Nil then show ?case by simp
next
  case (Cons a its)
  obtain key item where a: "a = (key, item)" by (cases a)
  show ?case
  proof (cases "updateIndices None item key i")
    case (Inl p)
    then have "indexFuncFails (indexers i) None item" using updateIndices_Inl_iff by blast
    with Inl show ?thesis by (auto simp: a)
  next
    case (Inr i1)
    then have nf: "\<not> indexFuncFails (indexers i) None item"
      using updateIndices_Inl_iff[of None item key i] by auto
    from Inr have "indexers i1 = indexers i" by (auto simp: updateIndices_Inr_iff)
    with Inr nf Cons.IH[of i1] show ?thesis by (simp add: a)
  qed
qed

lemma consistent_Replace_loop:
  "Replace_loop its i = Inr i' \<Longrightarrow> distinct (map fst its) \<Longrightarrow> distinct (map fst (indexers i)) \<Longrightarrow>
   consistent (indexers i) cur (indices i) \<Longrightarrow> (\<forall>k \<in> fst ` set its. cur k = None) \<Longrightarrow>
   consistent (indexers i) (\<lambda>k. case map_of its k of None \<Rightarrow> cur k | Some ob \<Rightarrow> ob) (indices i')"
proof (induction its arbitrary: i cur)
  case Nil then show ?case by simp
next
  case (Cons a its)
  obtain key item where a: "a = (key, item)" by (cases a)
  from Cons.prems(1) obtain i1 where s1: "updateIndices None item key i = Inr i1"
    and s2: "Replace_loop its i1 = Inr i'"
    by (auto simp: a split: sum.splits)
  from s1 obtain ixs1 where l: "updateIndices_loop None item key (indexers i) (indices i) = Inr ixs1"
    and i1: "i1 = i\<lparr>indices := ixs1\<rparr>" by (auto simp: updateIndices_Inr_iff)
  from Cons.prems(5) have ck: "cur key = None" by (simp add: a)
  from consistent_loop[OF Cons.prems(4) Cons.prems(3) l[folded ck]]
  have c1: "consistent (indexers i1) (cur(key := item)) (indices i1)" by (simp add: i1)
  from Cons.prems(2) have d: "distinct (map fst its)" and kn: "key \<notin> fst ` set its" by (auto simp: a)
  have n1: "\<forall>k \<in> fst ` set its. (cur(key := item)) k = None"
    using Cons.prems(5) kn by (auto simp: a)
  have d1: "distinct (map fst (indexers i1))" using Cons.prems(3) by (simp add: i1)
  from Cons.IH[OF s2 d d1 c1 n1]
  have "consistent (indexers i) (\<lambda>k. case map_of its k of None \<Rightarrow> (cur(key := item)) k | Some ob \<Rightarrow> ob) (indices i')"
    by (simp add: i1)
  moreover have "(\<lambda>k. case map_of its k of None \<Rightarrow> (cur(key := item)) k | Some ob \<Rightarrow> ob)
      = (\<lambda>k. case map_of (a # its) k of None \<Rightarrow> cur k | Some ob \<Rightarrow> ob)"
  proof
    fix k
    from kn have "map_of its key = None" by (simp add: map_of_eq_None_iff)
    then show "(case map_of its k of None \<Rightarrow> (cur(key := item)) k | Some ob \<Rightarrow> ob)
      = (case map_of (a # its) k of None \<Rightarrow> cur k | Some ob \<Rightarrow> ob)"
      by (cases "k = key") (simp_all add: a split: option.splits)
  qed
  ultimately show ?case by simp
qed

lemma consistent_Replace:
  assumes "distinct (map fst its)" "distinct (map fst (indexers (index c)))" "Replace its rv c = Inr c'"
  shows "consistent (indexers (index c)) (itemAt its) (indices (index c'))"
proof -
  from assms(3) obtain i' where l: "Replace_loop its (reset (index c)) = Inr i'"
    and c': "c' = \<lparr>items = its, index = i'\<rparr>"
    by (auto simp: Replace_def split: sum.splits)
  from assms(2) have d: "distinct (map fst (indexers (reset (index c))))"
    by (simp add: reset_def)
  have e: "consistent (indexers (reset (index c))) (\<lambda>k. None) (indices (reset (index c)))"
    by (simp add: reset_def consistent_empty)
  from consistent_Replace_loop[OF l assms(1) d e]
  show ?thesis by (simp add: itemAt_def[abs_def] reset_def c')
qed

lemma invariant_Replace:
  assumes "invariant c" "Replace its rv c = Inr c'" "distinct (map fst its)"
  shows "invariant c'"
proof -
  from assms(2) obtain i' where l: "Replace_loop its (reset (index c)) = Inr i'"
    and c': "c' = \<lparr>items = its, index = i'\<rparr>"
    by (auto simp: Replace_def split: sum.splits)
  from assms(1) have d: "distinct (map fst (indexers (reset (index c))))"
    by (simp add: invariant_def reset_def)
  have e: "consistent (indexers (reset (index c))) (\<lambda>k. None) (indices (reset (index c)))"
    by (simp add: reset_def consistent_empty)
  from consistent_Replace_loop[OF l assms(3) d e]
  have "consistent (indexers (reset (index c))) (itemAt its) (indices i')"
    by (simp add: itemAt_def[abs_def])
  with Replace_loop_indexers[OF l] d show ?thesis
    by (simp add: invariant_def c')
qed

lemma update_fresh: "k \<notin> fst ` set al \<Longrightarrow> AList.update k v al = al @ [(k, v)]"
  by (induction al) auto

lemma fold_update_fresh:
  "distinct (map fst new) \<Longrightarrow> fst ` set new \<inter> fst ` set al = {} \<Longrightarrow>
   fold (\<lambda>(k, v). AList.update k v) new al = al @ new"
proof (induction new arbitrary: al)
  case Nil then show ?case by simp
next
  case (Cons a new)
  obtain k v where a: "a = (k, v)" by (cases a)
  from Cons.prems have k: "k \<notin> fst ` set al" and d: "distinct (map fst new)"
    and kn: "k \<notin> fst ` set new" and dj: "fst ` set new \<inter> fst ` set al = {}"
    by (auto simp: a)
  have "fst ` set new \<inter> fst ` set (al @ [(k, v)]) = {}" using dj kn by auto
  from Cons.IH[OF d this] show ?case by (simp add: a update_fresh[OF k])
qed

lemma hasAny_iff:
  "list_ex (\<lambda>k. k \<in> set (map fst old)) (map fst new) \<longleftrightarrow> fst ` set old \<inter> fst ` set new \<noteq> {}"
  unfolding list_ex_iff by force

lemma addIndexers_conflict:
  "fst ` set (indexers i) \<inter> fst ` set new \<noteq> {} \<Longrightarrow>
   addIndexers new i = (Some (IndexerConflict (fst ` set (indexers i) \<inter> fst ` set new)), i)"
  using hasAny_iff[of "indexers i" new] by (simp add: addIndexers_def Let_def)

lemma addIndexers_ok:
  "fst ` set (indexers i) \<inter> fst ` set new = {} \<Longrightarrow>
   addIndexers new i = (None, i\<lparr>indexers := fold (\<lambda>(k, v). AList.update k v) new (indexers i)\<rparr>)"
  using hasAny_iff[of "indexers i" new] by (simp add: addIndexers_def Let_def)

lemma invariant_AddIndexers:
  assumes "invariant c" "distinct (map fst new)"
  shows "invariant (snd (AddIndexers new c))"
proof (cases "items c = [] \<and> fst ` set (indexers (index c)) \<inter> fst ` set new = {}")
  case False
  then have "snd (AddIndexers new c) = c"
    by (auto simp: AddIndexers_def addIndexers_conflict split: prod.splits)
  with assms show ?thesis by simp
next
  case True
  then have e: "items c = []" and dj: "fst ` set new \<inter> fst ` set (indexers (index c)) = {}" by auto
  let ?regs = "indexers (index c)"
  from True have r: "snd (AddIndexers new c) = c\<lparr>index := (index c)\<lparr>indexers := ?regs @ new\<rparr>\<rparr>"
    by (simp add: AddIndexers_def addIndexers_ok fold_update_fresh[OF assms(2) dj])
  from assms(1) have d: "distinct (map fst ?regs)"
    and k: "consistent ?regs (itemAt (items c)) (indices (index c))"
    by (auto simp: invariant_def)
  have d': "distinct (map fst (?regs @ new))" using d assms(2) dj by auto
  have cur: "itemAt (items c) = (\<lambda>k. None)" by (simp add: e itemAt_def fun_eq_iff)
  have "consistent (?regs @ new) (\<lambda>k. None) (indices (index c))"
    unfolding consistent_def
  proof (intro conjI ballI)
    fix r assume r: "r \<in> set (?regs @ new)"
    obtain name f where nf: "r = (name, f)" by (cases r)
    have "bucketOf (indexOf (indices (index c)) name) v = {}" for v
    proof (cases "r \<in> set ?regs")
      case True
      with k show ?thesis unfolding consistent_def cur nf
        by (fastforce simp: valuesFor_def)
    next
      case False
      with r have "name \<in> fst ` set new" by (force simp: nf)
      with dj have "name \<notin> fst ` set ?regs" by auto
      with k have "indices (index c) name = None" unfolding consistent_def by auto
      then show ?thesis by (simp add: indexOf_def bucketOf_def)
    qed
    then show "case r of (name, f) \<Rightarrow> \<forall>k. \<exists>vs. valuesFor f None = Inr vs \<and>
         (\<forall>v. k \<in> bucketOf (indexOf (indices (index c)) name) v \<longleftrightarrow> v \<in> set vs)"
      by (simp add: nf valuesFor_def)
  next
    from k show "dom (indices (index c)) \<subseteq> fst ` set (?regs @ new)"
      unfolding consistent_def by auto
  qed
  with d' show ?thesis by (simp add: invariant_def r e cur[unfolded e])
qed

lemma invariant_perform:
  "invariant c \<Longrightarrow> wf_call x \<Longrightarrow> perform x c = Inr c' \<Longrightarrow> invariant c'"
  by (cases x) (auto simp: Add_def intro: invariant_Update invariant_Delete invariant_Replace invariant_AddIndexers)

lemma invariant_run:
  "invariant c \<Longrightarrow> \<forall>x \<in> set xs. wf_call x \<Longrightarrow> run xs c = Inr c' \<Longrightarrow> invariant c'"
proof (induction xs arbitrary: c)
  case Nil then show ?case by simp
next
  case (Cons x xs)
  from Cons.prems(3) obtain c1 where s1: "perform x c = Inr c1" and s2: "run xs c1 = Inr c'"
    by (auto split: sum.splits)
  from invariant_perform[OF Cons.prems(1) _ s1] Cons.prems(2) have "invariant c1" by simp
  from Cons.IH[OF this _ s2] Cons.prems(2) show ?case by simp
qed

lemma invariant_New: "distinct (map fst regs) \<Longrightarrow> invariant (NewThreadSafeStore regs Map.empty)"
  by (simp add: invariant_def NewThreadSafeStore_def itemAt_def[abs_def] consistent_empty)

lemma isAddUpdateDelete_wf: "isAddUpdateDelete x \<Longrightarrow> wf_call x"
  by (cases x) auto

lemma isAddUpdateDelete_indexers:
  "isAddUpdateDelete x \<Longrightarrow> perform x c = Inr c' \<Longrightarrow> indexers (index c') = indexers (index c)"
  by (cases x) (auto simp: Add_def Update_def Delete_def Let_def updateIndices_Inr_iff split: sum.splits option.splits)

lemma run_indexers:
  "\<forall>x \<in> set xs. isAddUpdateDelete x \<Longrightarrow> run xs c = Inr c' \<Longrightarrow> indexers (index c') = indexers (index c)"
proof (induction xs arbitrary: c)
  case Nil then show ?case by simp
next
  case (Cons x xs)
  from Cons.prems(2) obtain c1 where s1: "perform x c = Inr c1" and s2: "run xs c1 = Inr c'"
    by (auto split: sum.splits)
  from isAddUpdateDelete_indexers[OF _ s1] Cons.prems(1) have "indexers (index c1) = indexers (index c)" by simp
  with Cons.IH[OF _ s2] Cons.prems(1) show ?case by simp
qed

subsection \<open>No operation leaves an empty bucket\<close>

lemma noEmptyBuckets_updateIndex:
  "noEmptyBuckets ixs \<Longrightarrow> updateIndex oldObj newObj key name f ixs = Inr ixs' \<Longrightarrow> noEmptyBuckets ixs'"
proof -
  assume a: "noEmptyBuckets ixs" and u: "updateIndex oldObj newObj key name f ixs = Inr ixs'"
  from u obtain ovs nvs where e: "ixs' = ixs(name \<mapsto> reconciled key ovs nvs (indexOf ixs name))"
    unfolding updateIndex_Inr_iff by blast
  from a have "noEmptyBucket (indexOf ixs name)"
    by (auto simp: noEmptyBuckets_def indexOf_def noEmptyBucket_def split: option.splits)
  then have "noEmptyBucket (reconciled key ovs nvs (indexOf ixs name))"
    by (rule noEmptyBucket_reconciled)
  with a show ?thesis by (simp add: noEmptyBuckets_def e)
qed

lemma noEmptyBuckets_loop:
  "noEmptyBuckets ixs \<Longrightarrow> updateIndices_loop oldObj newObj key regs ixs = Inr ixs' \<Longrightarrow> noEmptyBuckets ixs'"
proof (induction regs arbitrary: ixs)
  case Nil then show ?case by simp
next
  case (Cons r regs)
  obtain n f where r: "r = (n, f)" by (cases r)
  from Cons.prems obtain ixs1 where
    s1: "updateIndex oldObj newObj key n f ixs = Inr ixs1" and
    s2: "updateIndices_loop oldObj newObj key regs ixs1 = Inr ixs'"
    by (auto simp: r split: sum.splits)
  from noEmptyBuckets_updateIndex[OF Cons.prems(1) s1] Cons.IH[OF _ s2] show ?case by blast
qed

lemma noEmptyBuckets_updateIndices:
  "noEmptyBuckets (indices i) \<Longrightarrow> updateIndices oldObj newObj key i = Inr i' \<Longrightarrow> noEmptyBuckets (indices i')"
  by (auto simp: updateIndices_Inr_iff dest: noEmptyBuckets_loop)

lemma noEmptyBuckets_Replace_loop:
  "noEmptyBuckets (indices i) \<Longrightarrow> Replace_loop its i = Inr i' \<Longrightarrow> noEmptyBuckets (indices i')"
proof (induction its arbitrary: i)
  case Nil then show ?case by simp
next
  case (Cons a its)
  obtain key item where a: "a = (key, item)" by (cases a)
  from Cons.prems(2) obtain i1 where s1: "updateIndices None item key i = Inr i1"
    and s2: "Replace_loop its i1 = Inr i'"
    by (auto simp: a split: sum.splits)
  from noEmptyBuckets_updateIndices[OF Cons.prems(1) s1] Cons.IH[OF _ s2] show ?case by blast
qed

lemma noEmptyBuckets_perform:
  assumes "noEmptyBuckets (indices (index c))" "perform x c = Inr c'"
  shows "noEmptyBuckets (indices (index c'))"
proof (cases x)
  case (CallAdd key ob)
  with assms show ?thesis
    by (auto simp: Add_def Update_def Let_def split: sum.splits dest: noEmptyBuckets_updateIndices)
next
  case (CallUpdate key ob)
  with assms show ?thesis
    by (auto simp: Update_def Let_def split: sum.splits dest: noEmptyBuckets_updateIndices)
next
  case (CallDelete key)
  with assms show ?thesis
    by (auto simp: Delete_def split: sum.splits option.splits dest: noEmptyBuckets_updateIndices)
next
  case (CallReplace its rv)
  have "noEmptyBuckets (indices (reset (index c)))" by (simp add: reset_def noEmptyBuckets_def)
  with assms CallReplace show ?thesis
    by (auto simp: Replace_def split: sum.splits dest: noEmptyBuckets_Replace_loop)
next
  case (CallAddIndexers new)
  with assms show ?thesis
    by (auto simp: AddIndexers_def addIndexers_def Let_def split: if_splits prod.splits)
qed

lemma noEmptyBuckets_run:
  "noEmptyBuckets (indices (index c)) \<Longrightarrow> run xs c = Inr c' \<Longrightarrow> noEmptyBuckets (indices (index c'))"
proof (induction xs arbitrary: c)
  case Nil then show ?case by simp
next
  case (Cons x xs)
  from Cons.prems(2) obtain c1 where s1: "perform x c = Inr c1" and s2: "run xs c1 = Inr c'"
    by (auto split: sum.splits)
  from noEmptyBuckets_perform[OF Cons.prems(1) s1] Cons.IH[OF _ s2] show ?case by blast
qed

subsection \<open>Replace as a run of Add\<close>

lemma addAll_simps:
  "addAll [] = []" "addAll ((key, item) # its) = CallAdd key item # addAll its"
  by (simp_all add: addAll_def)

lemma Update_fresh:
  "key \<notin> fst ` set (items c) \<Longrightarrow>
   Update key ob c = (case updateIndices None ob key (index c) of
      Inl p \<Rightarrow> Inl p | Inr i' \<Rightarrow> Inr \<lparr>items = items c @ [(key, ob)], index = i'\<rparr>)"
proof -
  assume k: "key \<notin> fst ` set (items c)"
  then have "map_of (items c) key = None" by (simp add: map_of_eq_None_iff)
  then have "itemAt (items c) key = None" by (simp add: itemAt_def)
  then show ?thesis by (simp add: Update_def Let_def update_fresh[OF k])
qed

lemma run_addAll:
  "distinct (map fst its) \<Longrightarrow> fst ` set its \<inter> fst ` set (items c) = {} \<Longrightarrow>
   run (addAll its) c = (case Replace_loop its (index c) of
      Inl p \<Rightarrow> Inl p | Inr i' \<Rightarrow> Inr \<lparr>items = items c @ its, index = i'\<rparr>)"
proof (induction its arbitrary: c)
  case Nil then show ?case by (simp add: addAll_simps)
next
  case (Cons a its)
  obtain key item where a: "a = (key, item)" by (cases a)
  from Cons.prems have k: "key \<notin> fst ` set (items c)" and d: "distinct (map fst its)"
    and kn: "key \<notin> fst ` set its" and dj: "fst ` set its \<inter> fst ` set (items c) = {}"
    by (auto simp: a)
  show ?case
  proof (cases "updateIndices None item key (index c)")
    case (Inl p)
    then show ?thesis by (simp add: a addAll_simps Add_def Update_fresh[OF k])
  next
    case (Inr i1)
    let ?c1 = "\<lparr>items = items c @ [(key, item)], index = i1\<rparr>"
    have "fst ` set its \<inter> fst ` set (items ?c1) = {}" using dj kn by auto
    from Cons.IH[OF d this] Inr show ?thesis
      by (simp add: a addAll_simps Add_def Update_fresh[OF k] cong: sum.case_cong)
  qed
qed

lemma Replace_as_run:
  "distinct (map fst its) \<Longrightarrow>
   Replace its rv c = run (addAll its) (NewThreadSafeStore (indexers (index c)) Map.empty)"
proof -
  assume d: "distinct (map fst its)"
  have r: "reset (index c) = \<lparr>indexers = indexers (index c), indices = Map.empty\<rparr>"
    by (cases "index c") (simp add: reset_def)
  show ?thesis
    by (simp add: run_addAll[OF d] Replace_def NewThreadSafeStore_def r cong: sum.case_cong)
qed

subsection \<open>The fast path through the table\<close>

text \<open>
  \<^verbatim>\<open>updateIndices\<close> allocates a missing index before it tests the fast path. In a
  store reached from the empty one, an object is stored only after \<^verbatim>\<open>updateIndices\<close>
  has run over the whole registry, so every index exists when the fast path is taken and
  an update that takes it on every index returns the engine as it was.
\<close>

lemma updateIndex_fast_path:
  assumes "oldObj \<noteq> None" and "newObj \<noteq> None"
    and "indexFunc oldObj = Inr [v]" and "indexFunc newObj = Inr [v]"
  shows "updateIndex oldObj newObj key name indexFunc ixs = Inr (ixs(name \<mapsto> indexOf ixs name))"
  using assms by (simp add: updateIndex_def)

lemma indexOf_stored: "ixs name \<noteq> None \<Longrightarrow> ixs(name \<mapsto> indexOf ixs name) = ixs"
  by (auto simp: indexOf_def fun_eq_iff)

lemma fastPath_reconciled: "reconciled key [v] [v] ix = ix"
  by (simp add: reconciled_def fastPath_def)

lemma loop_fast_path:
  assumes "oldObj \<noteq> None" and "newObj \<noteq> None"
  shows "\<forall>(name, f) \<in> set regs. ixs name \<noteq> None \<and> (\<exists>v. f oldObj = Inr [v] \<and> f newObj = Inr [v]) \<Longrightarrow>
         updateIndices_loop oldObj newObj key regs ixs = Inr ixs"
proof (induction regs)
  case Nil then show ?case by simp
next
  case (Cons r regs)
  obtain n f where r: "r = (n, f)" by (cases r)
  from Cons.prems obtain v where "ixs n \<noteq> None" "f oldObj = Inr [v]" "f newObj = Inr [v]"
    by (auto simp: r)
  then have "updateIndex oldObj newObj key n f ixs = Inr ixs"
    by (simp add: updateIndex_fast_path[OF assms] indexOf_stored)
  with Cons show ?case by (simp add: r)
qed

lemma loop_all_indexed:
  "updateIndices_loop oldObj newObj key regs ixs = Inr ixs' \<Longrightarrow> distinct (map fst regs) \<Longrightarrow>
   fst ` set regs \<subseteq> dom ixs'"
proof
  fix name
  assume l: "updateIndices_loop oldObj newObj key regs ixs = Inr ixs'" and d: "distinct (map fst regs)"
    and "name \<in> fst ` set regs"
  then obtain f where r: "(name, f) \<in> set regs" by auto
  from loop_entry[OF l d r] show "name \<in> dom ixs'" by auto
qed

lemma Replace_loop_all_indexed:
  "Replace_loop its i = Inr i' \<Longrightarrow> distinct (map fst (indexers i)) \<Longrightarrow>
   its \<noteq> [] \<or> fst ` set (indexers i) \<subseteq> dom (indices i) \<Longrightarrow>
   fst ` set (indexers i) \<subseteq> dom (indices i')"
proof (induction its arbitrary: i)
  case Nil then show ?case by simp
next
  case (Cons a its)
  obtain key item where a: "a = (key, item)" by (cases a)
  from Cons.prems(1) obtain i1 where s1: "updateIndices None item key i = Inr i1"
    and s2: "Replace_loop its i1 = Inr i'"
    by (auto simp: a split: sum.splits)
  from s1 obtain ixs1 where l: "updateIndices_loop None item key (indexers i) (indices i) = Inr ixs1"
    and i1: "i1 = i\<lparr>indices := ixs1\<rparr>" by (auto simp: updateIndices_Inr_iff)
  from loop_all_indexed[OF l Cons.prems(2)] have "fst ` set (indexers i1) \<subseteq> dom (indices i1)"
    by (simp add: i1)
  moreover have "distinct (map fst (indexers i1))" using Cons.prems(2) by (simp add: i1)
  ultimately have "fst ` set (indexers i1) \<subseteq> dom (indices i')"
    using Cons.IH[OF s2] by blast
  then show ?case by (simp add: i1)
qed

lemma allIndexed_perform:
  assumes "invariant c" "allIndexed c" "perform x c = Inr c'"
  shows "allIndexed c'"
proof -
  from assms(1) have d: "distinct (map fst (indexers (index c)))" by (simp add: invariant_def)
  show ?thesis
  proof (cases x)
    case (CallAdd key ob)
    with assms(3) obtain ixs' where
      "updateIndices_loop (itemAt (items c) key) ob key (indexers (index c)) (indices (index c)) = Inr ixs'"
      "index c' = (index c)\<lparr>indices := ixs'\<rparr>"
      by (auto simp: Add_def Update_def Let_def updateIndices_Inr_iff split: sum.splits)
    with loop_all_indexed[OF _ d] show ?thesis by (simp add: allIndexed_def)
  next
    case (CallUpdate key ob)
    with assms(3) obtain ixs' where
      "updateIndices_loop (itemAt (items c) key) ob key (indexers (index c)) (indices (index c)) = Inr ixs'"
      "index c' = (index c)\<lparr>indices := ixs'\<rparr>"
      by (auto simp: Update_def Let_def updateIndices_Inr_iff split: sum.splits)
    with loop_all_indexed[OF _ d] show ?thesis by (simp add: allIndexed_def)
  next
    case (CallDelete key)
    show ?thesis
    proof (cases "map_of (items c) key")
      case None
      with assms CallDelete show ?thesis by (simp add: Delete_def)
    next
      case (Some ob)
      with assms(3) CallDelete obtain ixs' where
        "updateIndices_loop ob None key (indexers (index c)) (indices (index c)) = Inr ixs'"
        "index c' = (index c)\<lparr>indices := ixs'\<rparr>"
        by (auto simp: Delete_def updateIndices_Inr_iff split: sum.splits)
      with loop_all_indexed[OF _ d] show ?thesis by (simp add: allIndexed_def)
    qed
  next
    case (CallReplace its rv)
    with assms(3) obtain i' where l: "Replace_loop its (reset (index c)) = Inr i'"
      and c': "c' = \<lparr>items = its, index = i'\<rparr>"
      by (auto simp: Replace_def split: sum.splits)
    from d have d': "distinct (map fst (indexers (reset (index c))))" by (simp add: reset_def)
    show ?thesis
    proof (cases "its = []")
      case True
      then show ?thesis by (simp add: allIndexed_def c')
    next
      case False
      with Replace_loop_all_indexed[OF l d'] Replace_loop_indexers[OF l]
      show ?thesis by (simp add: allIndexed_def c')
    qed
  next
    case (CallAddIndexers new)
    show ?thesis
    proof (cases "items c = []")
      case True
      with assms(3) CallAddIndexers have "items c' = []"
        by (auto simp: AddIndexers_def split: prod.splits)
      then show ?thesis by (simp add: allIndexed_def)
    next
      case False
      with assms(3) CallAddIndexers have "c' = c" by (auto simp: AddIndexers_def)
      with assms(2) show ?thesis by simp
    qed
  qed
qed

lemma allIndexed_run:
  "invariant c \<Longrightarrow> allIndexed c \<Longrightarrow> \<forall>x \<in> set xs. wf_call x \<Longrightarrow> run xs c = Inr c' \<Longrightarrow> allIndexed c'"
proof (induction xs arbitrary: c)
  case Nil then show ?case by simp
next
  case (Cons x xs)
  from Cons.prems(4) obtain c1 where s1: "perform x c = Inr c1" and s2: "run xs c1 = Inr c'"
    by (auto split: sum.splits)
  from invariant_perform[OF Cons.prems(1) _ s1] Cons.prems(3) have i1: "invariant c1" by simp
  from allIndexed_perform[OF Cons.prems(1,2) s1] have a1: "allIndexed c1" .
  from Cons.IH[OF i1 a1 _ s2] Cons.prems(3) show ?case by simp
qed

lemma fast_path_Update_keeps_indices:
  assumes "distinct (map fst regs)" and "list_all wf_call calls"
    and "run calls (NewThreadSafeStore regs Map.empty) = Inr c"
    and "itemAt (items c) key \<noteq> None" and "newObj \<noteq> None"
    and "\<forall>(name, f) \<in> set (indexers (index c)).
           \<exists>v. f (itemAt (items c) key) = Inr [v] \<and> f newObj = Inr [v]"
  shows "\<exists>c'. Update key newObj c = Inr c' \<and> index c' = index c"
proof -
  from assms(2) have wf: "\<forall>x \<in> set calls. wf_call x" by (simp add: list_all_iff)
  have a0: "allIndexed (NewThreadSafeStore regs Map.empty)"
    by (simp add: allIndexed_def NewThreadSafeStore_def)
  from allIndexed_run[OF invariant_New[OF assms(1)] a0 wf assms(3)] have a: "allIndexed c" .
  from assms(4) have "items c \<noteq> []" by (auto simp: itemAt_def)
  with a have "fst ` set (indexers (index c)) \<subseteq> dom (indices (index c))" by (simp add: allIndexed_def)
  then have "\<And>name f. (name, f) \<in> set (indexers (index c)) \<Longrightarrow> indices (index c) name \<noteq> None"
    by (metis domIff fst_conv image_eqI subsetD)
  with assms(6) have "\<forall>(name, f) \<in> set (indexers (index c)). indices (index c) name \<noteq> None \<and>
           (\<exists>v. f (itemAt (items c) key) = Inr [v] \<and> f newObj = Inr [v])"
    by blast
  from loop_fast_path[OF assms(4,5) this]
  have "updateIndices (itemAt (items c) key) newObj key (index c) = Inr (index c)"
    by (simp add: updateIndices_def)
  then show ?thesis by (simp add: Update_def Let_def)
qed

subsection \<open>The example runs\<close>

lemmas eval_defs = NewThreadSafeStore_def Add_def Update_def Delete_def Replace_def reset_def
  updateIndices_def updateIndex_def itemAt_def indexOf_def bucketOf_def bucket_def
  addKeyToIndex_def deleteKeyFromIndex_def Let_def byFirstChar_def byConst_def insert_Diff_if

lemma fruit_run: "run fruitCalls (NewThreadSafeStore [(''byFirstChar'', byFirstChar)] Map.empty) = Inr fruitStore"
  by (simp add: eval_defs fruitCalls_def fruitStore_def)

lemma replaced_run: "Replace newFruit ''7'' fruitStore = Inr replacedStore"
  by (simp add: eval_defs fruitStore_def replacedStore_def newFruit_def)

lemma replaced_fruit_run:
  "run (fruitCalls @ [CallReplace newFruit ''7'', CallDelete ''k1''])
     (NewThreadSafeStore [(''byFirstChar'', byFirstChar)] Map.empty)
   = Inr \<lparr>items = [(''k2'', Some ''avocado'')],
      index = \<lparr>indexers = [(''byFirstChar'', byFirstChar)],
                indices = [''byFirstChar'' \<mapsto> [''a'' \<mapsto> {''k2''}]]\<rparr>\<rparr>"
  by (simp add: eval_defs fruitCalls_def newFruit_def)

lemma two_run: "run [CallAdd ''k1'' (Some ''banana'')] (NewThreadSafeStore twoIndexers Map.empty) = Inr twoIndexStore"
  by (simp add: eval_defs twoIndexers_def twoIndexStore_def)

lemma first_pass: "updateIndices_loop (itemAt (items twoIndexStore) ''k1'') (Some ''apple'') ''k1''
         [(''byFirstChar'', byFirstChar)] (indices (index twoIndexStore)) = Inr afterFirstPass"
  by (simp add: eval_defs twoIndexers_def twoIndexStore_def afterFirstPass_def fun_upd_twist)

lemma two_update: "Update ''k1'' (Some ''apple'') twoIndexStore
    = Inr \<lparr>items = [(''k1'', Some ''apple'')], index = \<lparr>indexers = twoIndexers, indices = afterFirstPass\<rparr>\<rparr>"
  by (simp add: eval_defs twoIndexers_def twoIndexStore_def afterFirstPass_def)

section \<open>The claims\<close>

text \<open>
  Claim C1, as stated: after a run of add, update and delete from the empty store, every
  key present in the table is in exactly the buckets of index I whose value is among the
  values that index function I produces on the object stored under the key.

  This fails for a key stored with the \<^verbatim>\<open>nil\<close> object. \<^verbatim>\<open>Add("k1", nil)\<close> stores the
  key, and \<^verbatim>\<open>updateIndices\<close> does not call an index function on \<^verbatim>\<open>nil\<close>: its guard
  \<^verbatim>\<open>if newObj != nil\<close> takes the empty sequence instead. With the constant indexer
  \<open>byConst\<close>, applying the function to the stored object yields \<open>testIndex\<close>, yet the
  key is in no bucket.
\<close>

theorem nil_object_index_values_counterexample:
  "run [CallAdd ''k1'' None] (NewThreadSafeStore [(''byConst'', byConst)] Map.empty) = Inr nilStore
   \<and> map_of (items nilStore) ''k1'' = Some None
   \<and> byConst None = Inr [''testIndex'']
   \<and> ''k1'' \<notin> bucket nilStore ''byConst'' ''testIndex''"
  by (simp add: eval_defs nilStore_def)

text \<open>
  Claim C1, amended: after every finite sequence of add, update and delete operations
  starting from an empty store (with a registry of distinct names), the registry is the
  one the store was built with, and
  \<^item> for every registered index name and function and every key stored with a non-nil
    object, the function yields values on that object and the key is in the bucket of a
    value of that index exactly when the value is among them;
  \<^item> a key stored with the \<^verbatim>\<open>nil\<close> object, and a key that is not stored, is in no bucket
    of any index;
  \<^item> no index exists under a name that is not registered.
\<close>

theorem indices_consistent_after_run:
  assumes "distinct (map fst regs)"
    and "list_all isAddUpdateDelete calls"
    and "run calls (NewThreadSafeStore regs Map.empty) = Inr c"
  shows "indexers (index c) = regs
    \<and> (\<forall>(name, f) \<in> set regs. \<forall>k x. map_of (items c) k = Some (Some x) \<longrightarrow>
          (\<exists>vs. f (Some x) = Inr vs \<and> (\<forall>v. k \<in> bucket c name v \<longleftrightarrow> v \<in> set vs)))
    \<and> (\<forall>name k v. map_of (items c) k = Some None \<or> map_of (items c) k = None \<longrightarrow> k \<notin> bucket c name v)
    \<and> (\<forall>name. name \<notin> fst ` set regs \<longrightarrow> indices (index c) name = None)"
proof -
  have aud: "\<forall>x \<in> set calls. isAddUpdateDelete x" using assms(2) by (simp add: list_all_iff)
  then have wf: "\<forall>x \<in> set calls. wf_call x" using isAddUpdateDelete_wf by blast
  from invariant_run[OF invariant_New[OF assms(1)] wf assms(3)] have inv: "invariant c" .
  from run_indexers[OF aud assms(3)] have regs: "indexers (index c) = regs"
    by (simp add: NewThreadSafeStore_def)
  from inv regs have k: "consistent regs (itemAt (items c)) (indices (index c))"
    by (simp add: invariant_def)
  have a: "\<forall>(name, f) \<in> set regs. \<forall>k x. map_of (items c) k = Some (Some x) \<longrightarrow>
          (\<exists>vs. f (Some x) = Inr vs \<and> (\<forall>v. k \<in> bucket c name v \<longleftrightarrow> v \<in> set vs))"
  proof (intro ballI allI impI, clarify)
    fix name f key x
    assume r: "(name, f) \<in> set regs" and m: "map_of (items c) key = Some (Some x)"
    from consistent_entry[OF k r, of key] obtain vs where "valuesFor f (itemAt (items c) key) = Inr vs"
      and "\<forall>v. key \<in> bucketOf (indexOf (indices (index c)) name) v \<longleftrightarrow> v \<in> set vs"
      by blast
    with m show "\<exists>vs. f (Some x) = Inr vs \<and> (\<forall>v. key \<in> bucket c name v \<longleftrightarrow> v \<in> set vs)"
      by (auto simp: itemAt_def valuesFor_def bucket_def)
  qed
  have d: "\<forall>name. name \<notin> fst ` set regs \<longrightarrow> indices (index c) name = None"
    using k unfolding consistent_def by auto
  have b: "k \<notin> bucket c name v" if n: "map_of (items c) k = Some None \<or> map_of (items c) k = None" for name k v
  proof (cases "name \<in> fst ` set regs")
    case True
    then obtain f where r: "(name, f) \<in> set regs" by auto
    from n have "itemAt (items c) k = None" by (auto simp: itemAt_def)
    with consistent_entry[OF k r, of k] show ?thesis
      by (auto simp: valuesFor_def bucket_def)
  next
    case False
    with d show ?thesis by (simp add: bucket_def indexOf_def bucketOf_def)
  qed
  from regs a b d show ?thesis by blast
qed

text \<open>
  Claim C1, an instance: the run \<open>fruitCalls\<close> ends in \<open>fruitStore\<close>, where \<open>k1\<close>
  holds \<open>banana\<close> and is in the bucket \<open>b\<close> only, and \<open>k3\<close> holds \<^verbatim>\<open>nil\<close> and is in
  no bucket.
\<close>

theorem indices_consistent_after_run_witness:
  "distinct (map fst [(''byFirstChar'', byFirstChar)])
   \<and> list_all isAddUpdateDelete fruitCalls
   \<and> run fruitCalls (NewThreadSafeStore [(''byFirstChar'', byFirstChar)] Map.empty) = Inr fruitStore
   \<and> map_of (items fruitStore) ''k1'' = Some (Some ''banana'')
   \<and> byFirstChar (Some ''banana'') = Inr [''b'']
   \<and> (\<forall>v. ''k1'' \<in> bucket fruitStore ''byFirstChar'' v \<longleftrightarrow> v \<in> set [''b''])
   \<and> map_of (items fruitStore) ''k3'' = Some None
   \<and> (\<forall>v. ''k3'' \<notin> bucket fruitStore ''byFirstChar'' v)"
proof -
  have h1: "distinct (map fst [(''byFirstChar'', byFirstChar)])" by simp
  have h2: "list_all isAddUpdateDelete fruitCalls" by (simp add: fruitCalls_def)
  have h3: "run fruitCalls (NewThreadSafeStore [(''byFirstChar'', byFirstChar)] Map.empty) = Inr fruitStore"
    by (rule fruit_run)
  have h4: "map_of (items fruitStore) ''k1'' = Some (Some ''banana'')" by (simp add: fruitStore_def)
  have h5: "byFirstChar (Some ''banana'') = Inr [''b'']" by (simp add: byFirstChar_def)
  have h6: "map_of (items fruitStore) ''k3'' = Some None" by (simp add: fruitStore_def)
  note t = indices_consistent_after_run [OF h1 h2 h3]
  from t have "\<forall>k x. map_of (items fruitStore) k = Some (Some x) \<longrightarrow>
      (\<exists>vs. byFirstChar (Some x) = Inr vs \<and> (\<forall>v. k \<in> bucket fruitStore ''byFirstChar'' v \<longleftrightarrow> v \<in> set vs))"
    by simp
  with h4 have "\<exists>vs. byFirstChar (Some ''banana'') = Inr vs
      \<and> (\<forall>v. ''k1'' \<in> bucket fruitStore ''byFirstChar'' v \<longleftrightarrow> v \<in> set vs)"
    by blast
  then have a: "\<forall>v. ''k1'' \<in> bucket fruitStore ''byFirstChar'' v \<longleftrightarrow> v \<in> set [''b'']"
    unfolding h5 by blast
  from t h6 have b: "\<forall>v. ''k3'' \<notin> bucket fruitStore ''byFirstChar'' v" by blast
  from h1 h2 h3 h4 h5 h6 a b show ?thesis by blast
qed

text \<open>
  Claim C2: for a map \<open>its\<close> (distinct keys), when \<open>Replace its rv c\<close> returns the
  store \<open>c'\<close>:
  \<^item> the table of \<open>c'\<close> is \<open>its\<close>: \<^verbatim>\<open>List\<close> yields the objects of \<open>its\<close> and
    \<^verbatim>\<open>ListKeys\<close> its keys; the registry is unchanged;
  \<^item> \<open>c'\<close>, and with it every index, is what adding each entry of \<open>its\<close> to a new store
    with the same registry and empty indices gives;
  \<^item> nothing of the contents before the call remains: \<^verbatim>\<open>Replace\<close> on any other table
    \<open>its0\<close> and any other indices \<open>ixs0\<close>, with the same registry, gives the same
    \<open>c'\<close>;
  \<^item> a key is in the bucket of a value of a registered index exactly when \<open>its\<close> maps the
    key to a non-nil object on which the index function yields that value, and no index
    exists under an unregistered name.
\<close>

theorem Replace_rebuilds_from_items:
  assumes "distinct (map fst its)" and "distinct (map fst (indexers (index c)))"
    and "Replace its rv c = Inr c'"
  shows "items c' = its \<and> List_items c' = map snd its \<and> ListKeys c' = map fst its
    \<and> indexers (index c') = indexers (index c)
    \<and> run (addAll its) (NewThreadSafeStore (indexers (index c)) Map.empty) = Inr c'
    \<and> Replace its rv' \<lparr>items = its0, index = \<lparr>indexers = indexers (index c), indices = ixs0\<rparr>\<rparr> = Inr c'
    \<and> (\<forall>(name, f) \<in> set (indexers (index c)). \<forall>k v.
          k \<in> bucket c' name v \<longleftrightarrow>
            (\<exists>x vs. map_of its k = Some (Some x) \<and> f (Some x) = Inr vs \<and> v \<in> set vs))
    \<and> (\<forall>name. name \<notin> fst ` set (indexers (index c)) \<longrightarrow> indices (index c') name = None)"
proof -
  from assms(3) obtain i' where l: "Replace_loop its (reset (index c)) = Inr i'"
    and c': "c' = \<lparr>items = its, index = i'\<rparr>"
    by (auto simp: Replace_def split: sum.splits)
  have 1: "items c' = its \<and> List_items c' = map snd its \<and> ListKeys c' = map fst its"
    by (simp add: c' List_items_def ListKeys_def)
  have 2: "indexers (index c') = indexers (index c)"
    using Replace_loop_indexers[OF l] by (simp add: c' reset_def)
  have 3: "run (addAll its) (NewThreadSafeStore (indexers (index c)) Map.empty) = Inr c'"
    using Replace_as_run[OF assms(1), of rv c] assms(3) by simp
  have "Replace its rv' \<lparr>items = its0, index = \<lparr>indexers = indexers (index c), indices = ixs0\<rparr>\<rparr>
      = run (addAll its) (NewThreadSafeStore (indexers (index c)) Map.empty)"
    using Replace_as_run[OF assms(1), of rv' "\<lparr>items = its0, index = \<lparr>indexers = indexers (index c), indices = ixs0\<rparr>\<rparr>"]
    by simp
  with 3 have 4: "Replace its rv' \<lparr>items = its0, index = \<lparr>indexers = indexers (index c), indices = ixs0\<rparr>\<rparr> = Inr c'"
    by simp
  note k = consistent_Replace[OF assms]
  have 5: "\<forall>(name, f) \<in> set (indexers (index c)). \<forall>k v.
          k \<in> bucket c' name v \<longleftrightarrow>
            (\<exists>x vs. map_of its k = Some (Some x) \<and> f (Some x) = Inr vs \<and> v \<in> set vs)"
  proof (intro ballI allI, clarify)
    fix name f key v
    assume r: "(name, f) \<in> set (indexers (index c))"
    from consistent_entry[OF k r, of key] obtain vs where
      vs: "valuesFor f (itemAt its key) = Inr vs"
      and m: "\<forall>v. key \<in> bucket c' name v \<longleftrightarrow> v \<in> set vs"
      by (auto simp: bucket_def)
    show "key \<in> bucket c' name v \<longleftrightarrow>
            (\<exists>x vs. map_of its key = Some (Some x) \<and> f (Some x) = Inr vs \<and> v \<in> set vs)"
    proof (cases "itemAt its key")
      case None
      then have "\<not> (\<exists>x. map_of its key = Some (Some x))" by (auto simp: itemAt_def)
      moreover from None vs have "vs = []" by (simp add: valuesFor_def)
      ultimately show ?thesis using m by simp
    next
      case (Some x)
      then have "map_of its key = Some (Some x)" by (auto simp: itemAt_def split: option.splits)
      moreover from Some vs have "f (Some x) = Inr vs" by (simp add: valuesFor_def)
      ultimately show ?thesis using m by auto
    qed
  qed
  have 6: "\<forall>name. name \<notin> fst ` set (indexers (index c)) \<longrightarrow> indices (index c') name = None"
    using k unfolding consistent_def by auto
  from 1 2 3 4 5 6 show ?thesis by blast
qed

text \<open>
  Claim C2, an instance: replacing the contents of \<open>fruitStore\<close> (keys \<open>k1\<close>,
  \<open>k3\<close>, bucket \<open>b\<close>) by \<open>newFruit\<close> gives \<open>replacedStore\<close>, whose only bucket is
  \<open>a\<close>.
\<close>

theorem Replace_rebuilds_from_items_witness:
  "distinct (map fst newFruit) \<and> distinct (map fst (indexers (index fruitStore)))
   \<and> Replace newFruit ''7'' fruitStore = Inr replacedStore
   \<and> items replacedStore = newFruit
   \<and> List_items replacedStore = map snd newFruit
   \<and> ListKeys replacedStore = map fst newFruit
   \<and> run (addAll newFruit) (NewThreadSafeStore (indexers (index fruitStore)) Map.empty) = Inr replacedStore
   \<and> Replace newFruit ''8'' \<lparr>items = [], index = \<lparr>indexers = indexers (index fruitStore), indices = Map.empty\<rparr>\<rparr>
        = Inr replacedStore"
proof -
  have h1: "distinct (map fst newFruit)" by (simp add: newFruit_def)
  have h2: "distinct (map fst (indexers (index fruitStore)))" by (simp add: fruitStore_def)
  have h3: "Replace newFruit ''7'' fruitStore = Inr replacedStore" by (rule replaced_run)
  show ?thesis
    using h1 h2 h3 Replace_rebuilds_from_items [OF h1 h2 h3, of "''8''" "[]" Map.empty]
    by blast
qed

text \<open>
  Claim C3: after every finite sequence of add, update, delete and replace operations
  (and of \<^verbatim>\<open>AddIndexers\<close> calls) starting from an empty store, every bucket that exists in
  the Index Set has a non-empty key set.
\<close>

theorem no_empty_bucket_after_run:
  assumes "run calls (NewThreadSafeStore regs Map.empty) = Inr c"
    and "indices (index c) name = Some ix" and "ix v = Some s"
  shows "s \<noteq> {}"
proof -
  have "noEmptyBuckets (indices (index (NewThreadSafeStore regs Map.empty)))"
    by (simp add: noEmptyBuckets_def NewThreadSafeStore_def)
  from noEmptyBuckets_run[OF this assms(1)] assms(2,3) show ?thesis
    by (auto simp: noEmptyBuckets_def noEmptyBucket_def)
qed

text \<open>
  Claim C3, an instance: in this run the last delete of \<open>fruitCalls\<close> empties the
  bucket \<open>a\<close>, which is dropped; the replace builds it again with two keys and the final
  delete takes one of them out. The bucket left holds \<open>k2\<close>.
\<close>

theorem no_empty_bucket_after_run_witness:
  "run (fruitCalls @ [CallReplace newFruit ''7'', CallDelete ''k1''])
     (NewThreadSafeStore [(''byFirstChar'', byFirstChar)] Map.empty)
   = Inr \<lparr>items = [(''k2'', Some ''avocado'')],
      index = \<lparr>indexers = [(''byFirstChar'', byFirstChar)],
                indices = [''byFirstChar'' \<mapsto> [''a'' \<mapsto> {''k2''}]]\<rparr>\<rparr>
   \<and> [''byFirstChar'' \<mapsto> [''a'' \<mapsto> {''k2''}]] ''byFirstChar'' = Some [''a'' \<mapsto> {''k2''}]
   \<and> [''a'' \<mapsto> {''k2''}] ''a'' = Some {''k2''}
   \<and> {''k2''} \<noteq> ({} :: string set)"
proof -
  have h1: "run (fruitCalls @ [CallReplace newFruit ''7'', CallDelete ''k1''])
     (NewThreadSafeStore [(''byFirstChar'', byFirstChar)] Map.empty)
   = Inr \<lparr>items = [(''k2'', Some ''avocado'')],
      index = \<lparr>indexers = [(''byFirstChar'', byFirstChar)],
                indices = [''byFirstChar'' \<mapsto> [''a'' \<mapsto> {''k2''}]]\<rparr>\<rparr>"
    by (rule replaced_fruit_run)
  have h2: "indices (index \<lparr>items = [(''k2'', Some ''avocado'')],
      index = \<lparr>indexers = [(''byFirstChar'', byFirstChar)],
                indices = [''byFirstChar'' \<mapsto> [''a'' \<mapsto> {''k2''}]]\<rparr>\<rparr>) ''byFirstChar'' = Some [''a'' \<mapsto> {''k2''}]"
    by simp
  have h3: "[''a'' \<mapsto> {''k2''}] ''a'' = Some {''k2''}" by simp
  show ?thesis using h1 h3 no_empty_bucket_after_run [OF h1 h2 h3] by simp
qed

text \<open>
  Claim C4: \<^verbatim>\<open>updateIndices\<close> panics exactly when a registered index function returns an
  error on the old or on the new object it is applied to, and returns normally exactly when
  none does. The panic carries the key, the name of a failing function and that function's
  error. A panic is the result \<open>Inl\<close>, which holds no state: the call does not go on to
  the next index. \<^verbatim>\<open>Update\<close>, \<^verbatim>\<open>Add\<close>, \<^verbatim>\<open>Delete\<close> (of a stored key) and
  \<^verbatim>\<open>Replace\<close> panic under the same condition on the objects they hand to
  \<^verbatim>\<open>updateIndices\<close>.
\<close>

theorem index_func_error_panics:
  "((\<exists>p. updateIndices oldObj newObj key i = Inl p) \<longleftrightarrow> indexFuncFails (indexers i) oldObj newObj)
   \<and> ((\<exists>i'. updateIndices oldObj newObj key i = Inr i') \<longleftrightarrow> \<not> indexFuncFails (indexers i) oldObj newObj)
   \<and> (\<forall>p. updateIndices oldObj newObj key i = Inl p \<longrightarrow>
         (\<exists>name f err. p = UnableToCalculateIndexEntry key name err \<and> (name, f) \<in> set (indexers i) \<and>
            ((oldObj \<noteq> None \<and> f oldObj = Inl err) \<or> (newObj \<noteq> None \<and> f newObj = Inl err))))
   \<and> ((\<exists>p. Update key newObj c = Inl p) \<longleftrightarrow>
         indexFuncFails (indexers (index c)) (itemAt (items c) key) newObj)
   \<and> ((\<exists>p. Add key newObj c = Inl p) \<longleftrightarrow>
         indexFuncFails (indexers (index c)) (itemAt (items c) key) newObj)
   \<and> ((\<exists>p. Delete key c = Inl p) \<longleftrightarrow>
         map_of (items c) key \<noteq> None \<and> indexFuncFails (indexers (index c)) (itemAt (items c) key) None)
   \<and> ((\<exists>p. Replace its rv c = Inl p) \<longleftrightarrow>
         (\<exists>(k, item) \<in> set its. indexFuncFails (indexers (index c)) None item))"
proof (intro conjI)
  show 1: "(\<exists>p. updateIndices oldObj newObj key i = Inl p) \<longleftrightarrow> indexFuncFails (indexers i) oldObj newObj"
    by (rule updateIndices_Inl_iff)
  show "(\<exists>i'. updateIndices oldObj newObj key i = Inr i') \<longleftrightarrow> \<not> indexFuncFails (indexers i) oldObj newObj"
    unfolding 1[symmetric] by (cases "updateIndices oldObj newObj key i") auto
  show "\<forall>p. updateIndices oldObj newObj key i = Inl p \<longrightarrow>
         (\<exists>name f err. p = UnableToCalculateIndexEntry key name err \<and> (name, f) \<in> set (indexers i) \<and>
            ((oldObj \<noteq> None \<and> f oldObj = Inl err) \<or> (newObj \<noteq> None \<and> f newObj = Inl err)))"
  proof (intro allI impI)
    fix p assume "updateIndices oldObj newObj key i = Inl p"
    then have "updateIndices_loop oldObj newObj key (indexers i) (indices i) = Inl p"
      by (auto simp: updateIndices_def split: sum.splits)
    then show "\<exists>name f err. p = UnableToCalculateIndexEntry key name err \<and> (name, f) \<in> set (indexers i) \<and>
            ((oldObj \<noteq> None \<and> f oldObj = Inl err) \<or> (newObj \<noteq> None \<and> f newObj = Inl err))"
      by (rule loop_Inl_cause)
  qed
  show "(\<exists>p. Update key newObj c = Inl p) \<longleftrightarrow>
         indexFuncFails (indexers (index c)) (itemAt (items c) key) newObj"
    by (rule Update_Inl_iff)
  show "(\<exists>p. Add key newObj c = Inl p) \<longleftrightarrow>
         indexFuncFails (indexers (index c)) (itemAt (items c) key) newObj"
    by (simp add: Add_def Update_Inl_iff)
  show "(\<exists>p. Delete key c = Inl p) \<longleftrightarrow>
         map_of (items c) key \<noteq> None \<and> indexFuncFails (indexers (index c)) (itemAt (items c) key) None"
  proof (cases "map_of (items c) key")
    case None
    then show ?thesis by (simp add: Delete_def)
  next
    case (Some ob)
    then have "(\<exists>p. Delete key c = Inl p) \<longleftrightarrow> (\<exists>p. updateIndices ob None key (index c) = Inl p)"
      by (auto simp: Delete_def split: sum.splits)
    with Some show ?thesis by (simp add: updateIndices_Inl_iff itemAt_def)
  qed
  have "(\<exists>p. Replace its rv c = Inl p) \<longleftrightarrow> (\<exists>p. Replace_loop its (reset (index c)) = Inl p)"
    by (auto simp: Replace_def split: sum.splits)
  then show "(\<exists>p. Replace its rv c = Inl p) \<longleftrightarrow>
         (\<exists>(k, item) \<in> set its. indexFuncFails (indexers (index c)) None item)"
    by (simp add: Replace_loop_Inl_iff reset_def)
qed

text \<open>
  Claim C4, an instance: \<open>byFirstChar\<close> fails on the empty string, so updating a key
  to it panics with the key, the index name and the error; updating to \<open>fig\<close> returns.
\<close>

theorem index_func_error_panics_witness:
  "indexFuncFails (indexers (index fruitStore)) (itemAt (items fruitStore) ''k4'') (Some '''')
   \<and> Update ''k4'' (Some '''') fruitStore
       = Inl (UnableToCalculateIndexEntry ''k4'' ''byFirstChar'' ''no first character'')
   \<and> \<not> indexFuncFails (indexers (index fruitStore)) (itemAt (items fruitStore) ''k4'') (Some ''fig'')
   \<and> (\<exists>c'. Update ''k4'' (Some ''fig'') fruitStore = Inr c')"
  using index_func_error_panics [of "itemAt (items fruitStore) ''k4''" "Some ''''" "''k4''" "index fruitStore" fruitStore "[]" "''0''"]
        index_func_error_panics [of "itemAt (items fruitStore) ''k4''" "Some ''fig''" "''k4''" "index fruitStore" fruitStore "[]" "''0''"]
  by (simp add: eval_defs fruitStore_def indexFuncFails_def)

text \<open>
  Claim C5: for new indexers with distinct names,
  \<^item> when a name is already registered, \<^verbatim>\<open>addIndexers\<close> fails with \<open>IndexerConflict\<close>
    listing exactly the names in both registries and leaves the engine as it was; so does
    the table's \<^verbatim>\<open>AddIndexers\<close> on an empty table, which leaves the whole store as it was;
  \<^item> when no name is registered yet, the call succeeds and the registry becomes the old
    entries followed by the new ones: the union of both, as a set of entries and as a map;
  \<^item> in every case the indices and the table are left as they were.
\<close>

theorem addIndexers_conflict_or_merge:
  assumes "distinct (map fst newIndexers)"
  shows "(fst ` set (indexers i) \<inter> fst ` set newIndexers \<noteq> {} \<longrightarrow>
            addIndexers newIndexers i
              = (Some (IndexerConflict (fst ` set (indexers i) \<inter> fst ` set newIndexers)), i)
            \<and> (items c = [] \<and> index c = i \<longrightarrow>
                 AddIndexers newIndexers c
                   = (Some (IndexerConflict (fst ` set (indexers i) \<inter> fst ` set newIndexers)), c)))
    \<and> (fst ` set (indexers i) \<inter> fst ` set newIndexers = {} \<longrightarrow>
            addIndexers newIndexers i = (None, i\<lparr>indexers := indexers i @ newIndexers\<rparr>)
            \<and> set (indexers i @ newIndexers) = set (indexers i) \<union> set newIndexers
            \<and> map_of (indexers i @ newIndexers) = map_of (indexers i) ++ map_of newIndexers
            \<and> (items c = [] \<and> index c = i \<longrightarrow>
                 AddIndexers newIndexers c = (None, c\<lparr>index := i\<lparr>indexers := indexers i @ newIndexers\<rparr>\<rparr>)))
    \<and> indices (snd (addIndexers newIndexers i)) = indices i
    \<and> items (snd (AddIndexers newIndexers c)) = items c
    \<and> indices (index (snd (AddIndexers newIndexers c))) = indices (index c)"
proof (intro conjI impI)
  assume x: "fst ` set (indexers i) \<inter> fst ` set newIndexers \<noteq> {}"
  show a: "addIndexers newIndexers i
      = (Some (IndexerConflict (fst ` set (indexers i) \<inter> fst ` set newIndexers)), i)"
    by (rule addIndexers_conflict[OF x])
  assume "items c = [] \<and> index c = i"
  with a show "AddIndexers newIndexers c
      = (Some (IndexerConflict (fst ` set (indexers i) \<inter> fst ` set newIndexers)), c)"
    by (auto simp: AddIndexers_def)
next
  assume x: "fst ` set (indexers i) \<inter> fst ` set newIndexers = {}"
  then have dj: "fst ` set newIndexers \<inter> fst ` set (indexers i) = {}" by auto
  show a: "addIndexers newIndexers i = (None, i\<lparr>indexers := indexers i @ newIndexers\<rparr>)"
    by (simp add: addIndexers_ok[OF x] fold_update_fresh[OF assms dj])
  show "set (indexers i @ newIndexers) = set (indexers i) \<union> set newIndexers" by simp
  have "dom (map_of newIndexers) \<inter> dom (map_of (indexers i)) = {}"
    using dj by (simp add: dom_map_of_conv_image_fst)
  then have "map_of newIndexers ++ map_of (indexers i) = map_of (indexers i) ++ map_of newIndexers"
    by (rule map_add_comm)
  then show "map_of (indexers i @ newIndexers) = map_of (indexers i) ++ map_of newIndexers"
    by simp
  assume "items c = [] \<and> index c = i"
  with a show "AddIndexers newIndexers c = (None, c\<lparr>index := i\<lparr>indexers := indexers i @ newIndexers\<rparr>\<rparr>)"
    by (auto simp: AddIndexers_def)
next
  show "indices (snd (addIndexers newIndexers i)) = indices i"
    by (simp add: addIndexers_def Let_def)
  show "items (snd (AddIndexers newIndexers c)) = items c"
    by (simp add: AddIndexers_def split: prod.splits)
  show "indices (index (snd (AddIndexers newIndexers c))) = indices (index c)"
    by (auto simp: AddIndexers_def addIndexers_def Let_def split: prod.splits if_splits)
qed

text \<open>
  Claim C5, an instance: registering \<open>byFirstChar\<close> again is a conflict on that name;
  registering \<open>byLength\<close> alone extends the registry.
\<close>

theorem addIndexers_conflict_or_merge_witness:
  "distinct (map fst [(''byLength'', byLength), (''byFirstChar'', byConst)])
   \<and> fst ` set (indexers emptyEngine) \<inter> fst ` set [(''byLength'', byLength), (''byFirstChar'', byConst)] \<noteq> {}
   \<and> addIndexers [(''byLength'', byLength), (''byFirstChar'', byConst)] emptyEngine
        = (Some (IndexerConflict {''byFirstChar''}), emptyEngine)
   \<and> distinct (map fst [(''byLength'', byLength)])
   \<and> fst ` set (indexers emptyEngine) \<inter> fst ` set [(''byLength'', byLength)] = {}
   \<and> addIndexers [(''byLength'', byLength)] emptyEngine
        = (None, emptyEngine\<lparr>indexers := [(''byFirstChar'', byFirstChar), (''byLength'', byLength)]\<rparr>)"
proof -
  have h1: "distinct (map fst [(''byLength'', byLength), (''byFirstChar'', byConst)])" by simp
  have h2: "fst ` set (indexers emptyEngine) \<inter> fst ` set [(''byLength'', byLength), (''byFirstChar'', byConst)] = {''byFirstChar''}"
    by (simp add: emptyEngine_def)
  have h3: "distinct (map fst [(''byLength'', byLength)])" by simp
  have h4: "fst ` set (indexers emptyEngine) \<inter> fst ` set [(''byLength'', byLength)] = {}"
    by (simp add: emptyEngine_def)
  have e: "indexers emptyEngine @ [(''byLength'', byLength)] = [(''byFirstChar'', byFirstChar), (''byLength'', byLength)]"
    by (simp add: emptyEngine_def)
  show ?thesis
    using h1 h2 h3 h4 addIndexers_conflict_or_merge [OF h1, of emptyEngine "NewThreadSafeStore [] Map.empty"]
      addIndexers_conflict_or_merge [OF h3, of emptyEngine "NewThreadSafeStore [] Map.empty"]
    unfolding e h2 by simp
qed

text \<open>
  Claim C6: on a store whose table is not empty, \<^verbatim>\<open>AddIndexers\<close> fails with
  \<open>IndexerRegistrationOnNonEmptyStore\<close> and returns the store unchanged; on an empty
  table it returns the error of the engine's \<^verbatim>\<open>addIndexers\<close> and the store with the
  engine that call left.
\<close>

theorem AddIndexers_nonempty_store_rejected:
  "(items c \<noteq> [] \<longrightarrow> AddIndexers newIndexers c = (Some IndexerRegistrationOnNonEmptyStore, c))
   \<and> (items c = [] \<longrightarrow>
        AddIndexers newIndexers c
          = (fst (addIndexers newIndexers (index c)), c\<lparr>index := snd (addIndexers newIndexers (index c))\<rparr>))"
  by (simp add: AddIndexers_def split: prod.splits)

text \<open>
  Claim C6, an instance: \<open>fruitStore\<close> holds two keys and rejects new indexers; a new
  store accepts them.
\<close>

theorem AddIndexers_nonempty_store_rejected_witness:
  "items fruitStore \<noteq> []
   \<and> AddIndexers [(''byLength'', byLength)] fruitStore = (Some IndexerRegistrationOnNonEmptyStore, fruitStore)
   \<and> items (NewThreadSafeStore [(''byFirstChar'', byFirstChar)] Map.empty) = []
   \<and> AddIndexers [(''byLength'', byLength)] (NewThreadSafeStore [(''byFirstChar'', byFirstChar)] Map.empty)
        = (None, NewThreadSafeStore [(''byFirstChar'', byFirstChar), (''byLength'', byLength)] Map.empty)"
proof -
  have h1: "items fruitStore \<noteq> []" by (simp add: fruitStore_def)
  have h2: "items (NewThreadSafeStore [(''byFirstChar'', byFirstChar)] Map.empty) = []"
    by (simp add: NewThreadSafeStore_def)
  show ?thesis
    using h1 h2 AddIndexers_nonempty_store_rejected [of fruitStore "[(''byLength'', byLength)]"]
      AddIndexers_nonempty_store_rejected [of "NewThreadSafeStore [(''byFirstChar'', byFirstChar)] Map.empty" "[(''byLength'', byLength)]"]
    by (simp add: NewThreadSafeStore_def addIndexers_def)
qed

text \<open>
  Claim C7: \<^verbatim>\<open>Delete\<close> of a key that is not in the table returns normally and leaves the
  whole store (table, indices and registry) as it was.
\<close>

theorem Delete_missing_key_noop:
  assumes "map_of (items c) key = None"
  shows "Delete key c = Inr c"
  using assms by (simp add: Delete_def)

text \<open>
  Claim C7, an instance: \<open>k2\<close> is not in \<open>fruitStore\<close>.
\<close>

theorem Delete_missing_key_noop_witness:
  "map_of (items fruitStore) ''k2'' = None \<and> Delete ''k2'' fruitStore = Inr fruitStore"
proof -
  have h: "map_of (items fruitStore) ''k2'' = None" by (simp add: fruitStore_def)
  show ?thesis using h Delete_missing_key_noop [OF h] by simp
qed

text \<open>
  Claim C8: take a store reached from the empty store (registry of distinct names) by any
  calls, and the reconcile that \<^verbatim>\<open>Update\<close> runs on it for a key. \<open>ixs\<close> is the Index
  Set a pass of the loop finds, after the passes for the entries \<open>pre\<close> before it. If the
  index-value sequences of the old and of the new object for the pass's index function
  each hold exactly one value, the same one, the pass returns the Index Set as it found it:
  nothing is mutated. Whatever the other passes do, the index under that name after the
  whole \<^verbatim>\<open>Update\<close> is the one before it. \<^verbatim>\<open>Delete\<close> and \<^verbatim>\<open>Replace\<close> hand reconcile a
  \<^verbatim>\<open>nil\<close> new or old object, whose sequence is empty and never a single value, so only
  passes of \<^verbatim>\<open>Update\<close> meet the premise.
\<close>

theorem fast_path_leaves_index_set:
  assumes "distinct (map fst regs)" and "list_all wf_call calls"
    and "run calls (NewThreadSafeStore regs Map.empty) = Inr c"
    and "indexers (index c) = pre @ (name, indexFunc) # post"
    and "updateIndices_loop (itemAt (items c) key) newObj key pre (indices (index c)) = Inr ixs"
    and "valuesFor indexFunc (itemAt (items c) key) = Inr [v]"
    and "valuesFor indexFunc newObj = Inr [v]"
  shows "updateIndex (itemAt (items c) key) newObj key name indexFunc ixs = Inr ixs
    \<and> (\<forall>c'. Update key newObj c = Inr c' \<longrightarrow> indices (index c') name = indices (index c) name)
    \<and> valuesFor indexFunc None \<noteq> Inr [v]"
proof (intro conjI allI impI)
  from assms(2) have wf: "\<forall>x \<in> set calls. wf_call x" by (simp add: list_all_iff)
  note inv0 = invariant_New[OF assms(1)]
  from invariant_run[OF inv0 wf assms(3)] have inv: "invariant c" .
  then have d: "distinct (map fst (indexers (index c)))" by (simp add: invariant_def)
  have a0: "allIndexed (NewThreadSafeStore regs Map.empty)"
    by (simp add: allIndexed_def NewThreadSafeStore_def)
  from allIndexed_run[OF inv0 a0 wf assms(3)] have a: "allIndexed c" .
  from assms(6) have old: "itemAt (items c) key \<noteq> None"
    by (auto simp: valuesFor_def split: if_splits)
  from assms(7) have new: "newObj \<noteq> None"
    by (auto simp: valuesFor_def split: if_splits)
  from old have "items c \<noteq> []" by (auto simp: itemAt_def)
  with a have sub: "fst ` set (indexers (index c)) \<subseteq> dom (indices (index c))"
    by (simp add: allIndexed_def)
  have r: "(name, indexFunc) \<in> set (indexers (index c))" by (simp add: assms(4))
  then have "name \<in> fst ` set (indexers (index c))" by force
  with sub have n0: "indices (index c) name \<noteq> None" by auto
  from d have "name \<notin> fst ` set pre" by (auto simp: assms(4))
  from loop_other[OF assms(5) this] n0 have n: "ixs name \<noteq> None" by simp
  from old new assms(6,7) have f: "indexFunc (itemAt (items c) key) = Inr [v]" "indexFunc newObj = Inr [v]"
    by (simp_all add: valuesFor_def)
  show "updateIndex (itemAt (items c) key) newObj key name indexFunc ixs = Inr ixs"
    using n by (simp add: updateIndex_fast_path[OF old new f] indexOf_stored[of ixs name])
  show "valuesFor indexFunc None \<noteq> Inr [v]" by (simp add: valuesFor_def)
  fix c' assume u: "Update key newObj c = Inr c'"
  then obtain ixs' where
    l: "updateIndices_loop (itemAt (items c) key) newObj key (indexers (index c)) (indices (index c)) = Inr ixs'"
    and c': "index c' = (index c)\<lparr>indices := ixs'\<rparr>"
    by (auto simp: Update_def Let_def updateIndices_Inr_iff split: sum.splits)
  from loop_entry[OF l d r] assms(6,7)
  have "ixs' name = Some (reconciled key [v] [v] (indexOf (indices (index c)) name))" by auto
  then have "ixs' name = Some (indexOf (indices (index c)) name)" by (simp add: fastPath_reconciled)
  with n0 have "ixs' name = indices (index c) name" by (auto simp: indexOf_def)
  then show "indices (index c') name = indices (index c) name" by (simp add: c')
qed

text \<open>
  Claim C8, an instance: a store with the indexes \<open>byFirstChar\<close> and \<open>byConst\<close>.
  Updating \<open>k1\<close> from \<open>banana\<close> to \<open>apple\<close> moves the key from the bucket \<open>b\<close>
  to the bucket \<open>a\<close> in the first pass; the second pass, for \<open>byConst\<close>, finds the
  single value \<open>testIndex\<close> on both objects and returns the Index Set it found.
\<close>

theorem fast_path_leaves_index_set_witness:
  "distinct (map fst twoIndexers) \<and> list_all wf_call [CallAdd ''k1'' (Some ''banana'')]
   \<and> run [CallAdd ''k1'' (Some ''banana'')] (NewThreadSafeStore twoIndexers Map.empty) = Inr twoIndexStore
   \<and> indexers (index twoIndexStore) = [(''byFirstChar'', byFirstChar)] @ (''byConst'', byConst) # []
   \<and> updateIndices_loop (itemAt (items twoIndexStore) ''k1'') (Some ''apple'') ''k1''
         [(''byFirstChar'', byFirstChar)] (indices (index twoIndexStore)) = Inr afterFirstPass
   \<and> valuesFor byConst (itemAt (items twoIndexStore) ''k1'') = Inr [''testIndex'']
   \<and> valuesFor byConst (Some ''apple'') = Inr [''testIndex'']
   \<and> updateIndex (itemAt (items twoIndexStore) ''k1'') (Some ''apple'') ''k1'' ''byConst'' byConst afterFirstPass
        = Inr afterFirstPass
   \<and> Update ''k1'' (Some ''apple'') twoIndexStore
        = Inr \<lparr>items = [(''k1'', Some ''apple'')], index = \<lparr>indexers = twoIndexers, indices = afterFirstPass\<rparr>\<rparr>
   \<and> afterFirstPass ''byConst'' = indices (index twoIndexStore) ''byConst''"
proof -
  have h1: "distinct (map fst twoIndexers)" by (simp add: twoIndexers_def)
  have h2: "list_all wf_call [CallAdd ''k1'' (Some ''banana'')]" by simp
  have h3: "run [CallAdd ''k1'' (Some ''banana'')] (NewThreadSafeStore twoIndexers Map.empty) = Inr twoIndexStore"
    by (rule two_run)
  have h4: "indexers (index twoIndexStore) = [(''byFirstChar'', byFirstChar)] @ (''byConst'', byConst) # []"
    by (simp add: twoIndexStore_def twoIndexers_def)
  have h5: "updateIndices_loop (itemAt (items twoIndexStore) ''k1'') (Some ''apple'') ''k1''
         [(''byFirstChar'', byFirstChar)] (indices (index twoIndexStore)) = Inr afterFirstPass"
    by (rule first_pass)
  have h6: "valuesFor byConst (itemAt (items twoIndexStore) ''k1'') = Inr [''testIndex'']"
    by (simp add: valuesFor_def byConst_def twoIndexStore_def itemAt_def)
  have h7: "valuesFor byConst (Some ''apple'') = Inr [''testIndex'']"
    by (simp add: valuesFor_def byConst_def)
  have h8: "Update ''k1'' (Some ''apple'') twoIndexStore
        = Inr \<lparr>items = [(''k1'', Some ''apple'')], index = \<lparr>indexers = twoIndexers, indices = afterFirstPass\<rparr>\<rparr>"
    by (rule two_update)
  note t = fast_path_leaves_index_set [OF h1 h2 h3 h4 h5 h6 h7]
  from t have a: "updateIndex (itemAt (items twoIndexStore) ''k1'') (Some ''apple'') ''k1'' ''byConst'' byConst afterFirstPass
        = Inr afterFirstPass" by blast
  from t h8 have "indices (index \<lparr>items = [(''k1'', Some ''apple'')],
      index = \<lparr>indexers = twoIndexers, indices = afterFirstPass\<rparr>\<rparr>) ''byConst''
      = indices (index twoIndexStore) ''byConst''" by blast
  then have b: "afterFirstPass ''byConst'' = indices (index twoIndexStore) ''byConst''" by simp
  from h1 h2 h3 h4 h5 h6 h7 h8 a b show ?thesis by blast
qed

text \<open>
  Claim C9: for a registered index name and any value, \<^verbatim>\<open>getKeysByIndex\<close> returns the key
  set bucketed under the value, \<^verbatim>\<open>IndexKeys\<close> its keys and \<^verbatim>\<open>ByIndex\<close> the objects
  stored under them; when no bucket exists for the value these are the empty set and empty
  lists, not errors. For an unregistered name the three calls fail with
  \<open>IndexNotFound\<close>, whatever the indices \<open>ixs\<close> hold.
\<close>

theorem lookup_by_value:
  "(map_of (indexers (index c)) indexName \<noteq> None \<longrightarrow>
       getKeysByIndex indexName v (index c) = Inr (bucket c indexName v)
     \<and> IndexKeys indexName v c = Inr (sorted_list_of_set (bucket c indexName v))
     \<and> ByIndex indexName v c = Inr (map (itemAt (items c)) (sorted_list_of_set (bucket c indexName v)))
     \<and> (indexOf (indices (index c)) indexName v = None \<longrightarrow>
          getKeysByIndex indexName v (index c) = Inr {}
          \<and> IndexKeys indexName v c = Inr [] \<and> ByIndex indexName v c = Inr []))
   \<and> (map_of (indexers (index c)) indexName = None \<longrightarrow>
       getKeysByIndex indexName v ((index c)\<lparr>indices := ixs\<rparr>) = Inl (IndexNotFound indexName)
     \<and> getKeysByIndex indexName v (index c) = Inl (IndexNotFound indexName)
     \<and> IndexKeys indexName v c = Inl (IndexNotFound indexName)
     \<and> ByIndex indexName v c = Inl (IndexNotFound indexName))"
  by (auto simp: getKeysByIndex_def IndexKeys_def ByIndex_def bucket_def bucketOf_def)

text \<open>
  Claim C9, an instance on \<open>fruitStore\<close>: the bucket \<open>b\<close>, the missing bucket \<open>a\<close>
  and the unregistered name \<open>byLength\<close>.
\<close>

theorem lookup_by_value_witness:
  "map_of (indexers (index fruitStore)) ''byFirstChar'' \<noteq> None
   \<and> IndexKeys ''byFirstChar'' ''b'' fruitStore = Inr [''k1'']
   \<and> ByIndex ''byFirstChar'' ''b'' fruitStore = Inr [Some ''banana'']
   \<and> indexOf (indices (index fruitStore)) ''byFirstChar'' ''a'' = None
   \<and> IndexKeys ''byFirstChar'' ''a'' fruitStore = Inr []
   \<and> ByIndex ''byFirstChar'' ''a'' fruitStore = Inr []
   \<and> map_of (indexers (index fruitStore)) ''byLength'' = None
   \<and> IndexKeys ''byLength'' ''b'' fruitStore = Inl (IndexNotFound ''byLength'')
   \<and> ByIndex ''byLength'' ''b'' fruitStore = Inl (IndexNotFound ''byLength'')"
proof -
  have h1: "map_of (indexers (index fruitStore)) ''byFirstChar'' \<noteq> None" by (simp add: fruitStore_def)
  have h2: "indexOf (indices (index fruitStore)) ''byFirstChar'' ''a'' = None"
    by (simp add: fruitStore_def indexOf_def)
  have h3: "map_of (indexers (index fruitStore)) ''byLength'' = None" by (simp add: fruitStore_def)
  have b: "bucket fruitStore ''byFirstChar'' ''b'' = {''k1''}"
    by (simp add: fruitStore_def bucket_def bucketOf_def indexOf_def)
  have i: "itemAt (items fruitStore) ''k1'' = Some ''banana''"
    by (simp add: fruitStore_def itemAt_def)
  have a: "bucket fruitStore ''byFirstChar'' ''a'' = {}"
    by (simp add: fruitStore_def bucket_def bucketOf_def indexOf_def)
  show ?thesis
    using h1 h2 h3 lookup_by_value [of fruitStore "''byFirstChar''" "''b''" Map.empty]
      lookup_by_value [of fruitStore "''byFirstChar''" "''a''" Map.empty]
      lookup_by_value [of fruitStore "''byLength''" "''b''" Map.empty]
    by (simp add: a b i)
qed

text \<open>
  Claim C10: in a store reached from the empty store (registry of distinct names) by any
  calls, \<^verbatim>\<open>Update(key, nil)\<close> and \<^verbatim>\<open>Add(key, nil)\<close> return normally, with the same
  store; in it \<^verbatim>\<open>Get\<close> reports the key as present with the \<^verbatim>\<open>nil\<close> object, \<^verbatim>\<open>ListKeys\<close>
  lists the key and \<^verbatim>\<open>List\<close> its \<^verbatim>\<open>nil\<close> object, and the key is in no bucket of any
  index.
\<close>

theorem nil_object_present_but_unindexed:
  assumes "distinct (map fst regs)" and "list_all wf_call calls"
    and "run calls (NewThreadSafeStore regs Map.empty) = Inr c"
  shows "\<exists>c'. Update key None c = Inr c' \<and> Add key None c = Inr c'
    \<and> Get key c' = (None, True)
    \<and> key \<in> set (ListKeys c') \<and> (key, None) \<in> set (items c') \<and> None \<in> set (List_items c')
    \<and> (\<forall>name v. key \<notin> bucket c' name v)"
proof -
  from assms(2) have wf: "\<forall>x \<in> set calls. wf_call x" by (simp add: list_all_iff)
  from invariant_run[OF invariant_New[OF assms(1)] wf assms(3)] have inv: "invariant c" .
  then have k: "consistent (indexers (index c)) (itemAt (items c)) (indices (index c))"
    by (simp add: invariant_def)
  have "\<not> indexFuncFails (indexers (index c)) (itemAt (items c) key) None"
  proof
    assume "indexFuncFails (indexers (index c)) (itemAt (items c) key) None"
    then obtain name f where r: "(name, f) \<in> set (indexers (index c))"
      and "isl (valuesFor f (itemAt (items c) key))"
      by (auto simp: indexFuncFails_def isl_valuesFor)
    with consistent_entry[OF k r, of key] show False by auto
  qed
  then have "\<not> (\<exists>p. Update key None c = Inl p)" by (simp add: Update_Inl_iff)
  then obtain c' where u: "Update key None c = Inr c'" by (cases "Update key None c") auto
  from invariant_Update[OF inv u] have k': "consistent (indexers (index c')) (itemAt (items c')) (indices (index c'))"
    by (simp add: invariant_def)
  from u have it: "items c' = AList.update key None (items c)"
    by (auto simp: Update_def Let_def split: sum.splits)
  have m: "map_of (items c') key = Some None" by (simp add: it update_conv')
  then have mem: "(key, None) \<in> set (items c')" by (rule map_of_SomeD)
  have ia: "itemAt (items c') key = None" by (simp add: itemAt_def m)
  have nb: "key \<notin> bucket c' name v" for name v
  proof (cases "name \<in> fst ` set (indexers (index c'))")
    case True
    then obtain f where r: "(name, f) \<in> set (indexers (index c'))" by auto
    from consistent_entry[OF k' r, of key] ia show ?thesis
      by (auto simp: valuesFor_def bucket_def)
  next
    case False
    with k' have "indices (index c') name = None" unfolding consistent_def by auto
    then show ?thesis by (simp add: bucket_def indexOf_def bucketOf_def)
  qed
  from mem have "key \<in> set (ListKeys c')" "None \<in> set (List_items c')"
    by (force simp: ListKeys_def List_items_def)+
  with u m mem ia nb show ?thesis
    by (auto simp: Add_def Get_def)
qed

text \<open>
  Claim C10, an instance: setting \<open>k1\<close> of \<open>fruitStore\<close> to \<^verbatim>\<open>nil\<close>.
\<close>

theorem nil_object_present_but_unindexed_witness:
  "distinct (map fst [(''byFirstChar'', byFirstChar)])
   \<and> list_all wf_call fruitCalls
   \<and> run fruitCalls (NewThreadSafeStore [(''byFirstChar'', byFirstChar)] Map.empty) = Inr fruitStore
   \<and> (\<exists>c'. Update ''k1'' None fruitStore = Inr c' \<and> Add ''k1'' None fruitStore = Inr c'
        \<and> Get ''k1'' c' = (None, True)
        \<and> ''k1'' \<in> set (ListKeys c') \<and> (''k1'', None) \<in> set (items c') \<and> None \<in> set (List_items c')
        \<and> (\<forall>name v. ''k1'' \<notin> bucket c' name v))"
proof -
  have h1: "distinct (map fst [(''byFirstChar'', byFirstChar)])" by simp
  have h2: "list_all wf_call fruitCalls" by (simp add: fruitCalls_def)
  have h3: "run fruitCalls (NewThreadSafeStore [(''byFirstChar'', byFirstChar)] Map.empty) = Inr fruitStore"
    by (rule fruit_run)
  show ?thesis
    using h1 h2 h3 nil_object_present_but_unindexed [OF h1 h2 h3, of "''k1''"] by blast
qed

end
